theory Spec2Isabelle
  imports Main
begin

section \<open>Strings and code points\<close>

text \<open>
  A Go string is a sequence of bytes: \<^typ>\<open>string\<close>, whose characters are bytes.
  A rune is a code point; the values that occur are in the range 0 to 0x10FFFF.
\<close>

type_synonym rune = nat

abbreviation (input) RuneError :: rune where "RuneError \<equiv> 0xFFFD"
abbreviation (input) LPAREN :: rune where "LPAREN \<equiv> 0x28"
abbreviation (input) RPAREN :: rune where "RPAREN \<equiv> 0x29"
abbreviation (input) STAR :: rune where "STAR \<equiv> 0x2A"
abbreviation (input) PLUS :: rune where "PLUS \<equiv> 0x2B"
abbreviation (input) DOT :: rune where "DOT \<equiv> 0x2E"
abbreviation (input) QMARK :: rune where "QMARK \<equiv> 0x3F"
abbreviation (input) BACKSLASH :: rune where "BACKSLASH \<equiv> 0x5C"
abbreviation (input) PIPE :: rune where "PIPE \<equiv> 0x7C"

text \<open>
  The library function \<^verbatim>\<open>utf8.DecodeRuneInString\<close> of Go, which the scanner calls: the
  first code point of the string and its width in bytes; \<open>(RuneError, 0)\<close> for the empty
  string and \<open>(RuneError, 1)\<close> for an encoding that is not valid UTF-8. The first byte
  gives the size of the sequence and the range accepted for the second byte.
\<close>

fun DecodeRuneInString :: "string \<Rightarrow> rune \<times> nat" where
  "DecodeRuneInString [] = (RuneError, 0)"
| "DecodeRuneInString (c0 # s) =
    (let s0 = (of_char c0 :: nat) in
     if s0 < 0x80 then (s0, 1)
     else if s0 < 0xC2 \<or> 0xF4 < s0 then (RuneError, 1)
     else
       (let sz = (if s0 < 0xE0 then 2 else if s0 < 0xF0 then 3 else 4 :: nat);
            lo = (if s0 = 0xE0 then 0xA0 else if s0 = 0xF0 then 0x90 else 0x80 :: nat);
            hi = (if s0 = 0xED then 0x9F else if s0 = 0xF4 then 0x8F else 0xBF :: nat)
        in if Suc (length s) < sz then (RuneError, 1)
           else
             (let s1 = (of_char (s ! 0) :: nat) in
              if s1 < lo \<or> hi < s1 then (RuneError, 1)
              else if sz \<le> 2 then ((s0 mod 32) * 64 + s1 mod 64, 2)
              else
                (let s2 = (of_char (s ! 1) :: nat) in
                 if s2 < 0x80 \<or> 0xBF < s2 then (RuneError, 1)
                 else if sz \<le> 3
                   then ((s0 mod 16) * 4096 + (s1 mod 64) * 64 + s2 mod 64, 3)
                 else
                   (let s3 = (of_char (s ! 2) :: nat) in
                    if s3 < 0x80 \<or> 0xBF < s3 then (RuneError, 1)
                    else ((s0 mod 8) * 262144 + (s1 mod 64) * 4096
                            + (s2 mod 64) * 64 + s3 mod 64, 4))))))"

text \<open>
  \<^verbatim>\<open>for _, r := range in\<close>: the code points of a string in order, decoded as above
  (an invalid byte gives RuneError and advances by one byte).
\<close>

function runes :: "string \<Rightarrow> rune list" where
  "runes s = (if s = [] then []
              else fst (DecodeRuneInString s) # runes (drop (snd (DecodeRuneInString s)) s))"
  by pat_completeness auto
termination
proof (relation "measure length")
  show "wf (measure length)" by simp
next
  fix s :: string
  assume "s \<noteq> []"
  then obtain c cs where s: "s = c # cs" by (cases s) auto
  have "0 < snd (DecodeRuneInString (c # cs))"
    by (simp add: Let_def)
  with s show "(drop (snd (DecodeRuneInString s)) s, s) \<in> measure length"
    by simp
qed

declare runes.simps [simp del]

section \<open>Failures\<close>

text \<open>
  The errors \<^verbatim>\<open>Compile\<close> returns, one constructor for each \<^verbatim>\<open>fmt.Errorf\<close> of the
  parser, with the values it formats.
\<close>

datatype error =
    IllegalAt rune nat
  | EmptyLeftOperand rune nat
  | InvalidCharacter rune nat
  | UnknownEscape rune
  | UnterminatedSubexp nat

text \<open>
  A call either returns an error, or panics (a method call on a nil interface value, or
  \<^verbatim>\<open>panic(err)\<close> in \<^verbatim>\<open>MustCompile\<close>), or, in this model only, runs out of the fuel
  that bounds the recursion of the parser.
\<close>

datatype panic = NilDereference | Raised error

datatype failure = Err error | Panic panic | OutOfFuel

section \<open>NFA nodes\<close>

text \<open>
  The concrete node types. A value of the interface \<^verbatim>\<open>node\<close> is nil or the address of a
  node object; the objects live in an arena, a list indexed by address. Every node
  has the list of its epsilon successors (\<^verbatim>\<open>nodeBase\<close>); the field \<open>nxt\<close> is the field
  \<^verbatim>\<open>n\<close> of \<^verbatim>\<open>matchBase\<close>, used by the two match nodes only.
\<close>

datatype kind =
    StarNode | QmarkNode | PlusNode | TerminalNode | LeftParenNode | RightParenNode
  | PipeNode | DotNode | LiteralNode rune

type_synonym node = "nat option"

record nodeObj =
  kind :: kind
  epsilons :: "node list"
  nxt :: node

type_synonym heap = "nodeObj list"

fun isMatchNode :: "kind \<Rightarrow> bool" where
  "isMatchNode DotNode = True"
| "isMatchNode (LiteralNode c) = True"
| "isMatchNode k = False"

fun matches :: "kind \<Rightarrow> rune \<Rightarrow> bool" where
  "matches DotNode r = True"
| "matches (LiteralNode c) r = (r = c)"
| "matches k r = False"

definition new_node :: "heap \<Rightarrow> kind \<Rightarrow> nat \<times> heap" where
  "new_node h k = (length h, h @ [\<lparr>kind = k, epsilons = [], nxt = None\<rparr>])"

text \<open>
  \<^verbatim>\<open>n.addEpsilon(e)\<close> and \<^verbatim>\<open>n.setNext(e)\<close>. A call on nil panics. Go has no dangling
  address; the model gives the same failure for an address outside the arena.
\<close>

fun addEpsilon :: "heap \<Rightarrow> node \<Rightarrow> node \<Rightarrow> failure + heap" where
  "addEpsilon h None e = Inl (Panic NilDereference)"
| "addEpsilon h (Some a) e =
    (if a < length h
     then Inr (h[a := (h ! a)\<lparr>epsilons := epsilons (h ! a) @ [e]\<rparr>])
     else Inl (Panic NilDereference))"

fun setNext :: "heap \<Rightarrow> node \<Rightarrow> node \<Rightarrow> failure + heap" where
  "setNext h None e = Inl (Panic NilDereference)"
| "setNext h (Some a) e =
    (if a < length h
     then Inr (h[a := (h ! a)\<lparr>nxt := e\<rparr>])
     else Inl (Panic NilDereference))"

section \<open>Scanner\<close>

record parser =
  inp :: string
  pos :: nat
  width :: nat

definition parser_next :: "parser \<Rightarrow> rune \<times> parser" where
  "parser_next p =
    (let (r, w) = DecodeRuneInString (drop (pos p) (inp p))
     in (r, p\<lparr>pos := pos p + w, width := w\<rparr>))"

definition backup :: "parser \<Rightarrow> parser" where
  "backup p = p\<lparr>pos := pos p - width p, width := 0\<rparr>"

definition peek :: "parser \<Rightarrow> rune \<times> parser" where
  "peek p = (let (r, p') = parser_next p in (r, backup p'))"

section \<open>Fragments\<close>

record expr =
  start :: node
  fin :: node

definition no_expr :: expr where
  "no_expr = \<lparr>start = None, fin = None\<rparr>"

definition isEmpty :: "expr \<Rightarrow> bool" where
  "isEmpty e = (e = no_expr)"

text \<open>
  \<^verbatim>\<open>concat\<close>: the type assertion \<^verbatim>\<open>e.end.(matchBuilder)\<close> fails on nil, and the call of
  \<^verbatim>\<open>addEpsilon\<close> on nil then panics.
\<close>

definition concat_expr :: "heap \<Rightarrow> expr \<Rightarrow> expr \<Rightarrow> failure + (expr \<times> heap)" where
  "concat_expr h e nx =
    (if isEmpty e then Inr (nx, h)
     else if isEmpty nx then Inr (e, h)
     else
       (case (case fin e of
                None \<Rightarrow> addEpsilon h None (start nx)
              | Some a \<Rightarrow>
                  if a < length h \<and> isMatchNode (kind (h ! a))
                  then setNext h (Some a) (start nx)
                  else addEpsilon h (Some a) (start nx)) of
          Inl f \<Rightarrow> Inl f
        | Inr h' \<Rightarrow> Inr (e\<lparr>fin := fin nx\<rparr>, h')))"

definition concatNode :: "heap \<Rightarrow> expr \<Rightarrow> node \<Rightarrow> failure + (expr \<times> heap)" where
  "concatNode h e n = concat_expr h e \<lparr>start = n, fin = n\<rparr>"

section \<open>Parser\<close>

type_synonym parsed = "failure + (expr \<times> parser \<times> heap)"

definition parseDot :: "parser \<Rightarrow> heap \<Rightarrow> parsed" where
  "parseDot p h =
    (let (r, p1) = parser_next p;
         (n, h1) = new_node h DotNode
     in Inr (\<lparr>start = Some n, fin = Some n\<rparr>, p1, h1))"

definition parseLiteral :: "parser \<Rightarrow> heap \<Rightarrow> parsed" where
  "parseLiteral p h =
    (let (r, p1) = parser_next p;
         (n, h1) = new_node h (LiteralNode r)
     in Inr (\<lparr>start = Some n, fin = Some n\<rparr>, p1, h1))"

definition parseEscape :: "parser \<Rightarrow> heap \<Rightarrow> parsed" where
  "parseEscape p h =
    (let (r0, p1) = parser_next p;
         (r, p2) = peek p1
     in if r = QMARK \<or> r = STAR \<or> r = PLUS \<or> r = LPAREN \<or> r = RPAREN \<or> r = PIPE
        then parseLiteral p2 h
        else Inl (Err (UnknownEscape r)))"

text \<open>
  \<^verbatim>\<open>parseMeta\<close>: in the default case of the switch \<open>n\<close> stays nil, and \<^verbatim>\<open>concatNode\<close>
  with the empty fragment returns the term.
\<close>

definition parseMeta :: "parser \<Rightarrow> heap \<Rightarrow> expr \<Rightarrow> parsed" where
  "parseMeta p h term =
    (let (mc, p1) = parser_next p in
     case
       (if mc = PLUS then
          (let (n, h1) = new_node h PlusNode in
           case addEpsilon h1 (Some n) (start term) of
             Inl f \<Rightarrow> Inl f
           | Inr h2 \<Rightarrow> Inr (Some n, h2))
        else if mc = STAR then
          (let (n, h1) = new_node h StarNode in
           case addEpsilon h1 (Some n) (start term) of
             Inl f \<Rightarrow> Inl f
           | Inr h2 \<Rightarrow>
               (case addEpsilon h2 (start term) (Some n) of
                  Inl f \<Rightarrow> Inl f
                | Inr h3 \<Rightarrow> Inr (Some n, h3)))
        else if mc = QMARK then
          (let (n, h1) = new_node h QmarkNode in
           case addEpsilon h1 (start term) (Some n) of
             Inl f \<Rightarrow> Inl f
           | Inr h2 \<Rightarrow> Inr (Some n, h2))
        else Inr (None, h)) of
       Inl f \<Rightarrow> Inl f
     | Inr (n, h') \<Rightarrow>
         (case concatNode h' term n of
            Inl f \<Rightarrow> Inl f
          | Inr (e, h'') \<Rightarrow> Inr (e, p1, h'')))"

text \<open>
  The four mutually recursive functions of the parser. The first argument is fuel: it
  bounds the depth of the calls, and each call passes one less to the calls it makes.
  The argument \<open>e\<close> of \<open>parseClause\<close> is the variable \<^verbatim>\<open>e\<close> of its loop, the clause
  parsed so far; a call from outside starts with the empty fragment.

  In \<^verbatim>\<open>parseSubexp\<close> the error for a missing \<^verbatim>\<open>)\<close> is only stored; the parenthesis
  nodes are still built before it is returned.
\<close>

fun parseClause :: "nat \<Rightarrow> parser \<Rightarrow> heap \<Rightarrow> expr \<Rightarrow> parsed"
  and parsePipe :: "nat \<Rightarrow> parser \<Rightarrow> heap \<Rightarrow> expr \<Rightarrow> parsed"
  and parseTerm :: "nat \<Rightarrow> parser \<Rightarrow> heap \<Rightarrow> parsed"
  and parseSubexp :: "nat \<Rightarrow> parser \<Rightarrow> heap \<Rightarrow> parsed"
where
  "parseClause 0 p h e = Inl OutOfFuel"
| "parseClause (Suc n) p h e =
    (let (r, p1) = peek p in
     if r = RuneError \<or> r = RPAREN then Inr (e, p1, h)
     else if r = PIPE then
       (case parsePipe n p1 h e of
          Inl f \<Rightarrow> Inl f
        | Inr (e', p2, h2) \<Rightarrow> parseClause n p2 h2 e')
     else
       (case parseTerm n p1 h of
          Inl f \<Rightarrow> Inl f
        | Inr (nx, p2, h2) \<Rightarrow>
            (case concat_expr h2 e nx of
               Inl f \<Rightarrow> Inl f
             | Inr (e', h3) \<Rightarrow> parseClause n p2 h3 e')))"
| "parsePipe 0 p h lhs = Inl OutOfFuel"
| "parsePipe (Suc n) p h lhs =
    (let (r0, p1) = parser_next p in
     if isEmpty lhs then
       (let (r, p2) = peek p1 in Inl (Err (EmptyLeftOperand r (pos p2))))
     else
       (case parseClause n p1 h no_expr of
          Inl f \<Rightarrow> Inl f
        | Inr (e, p2, h2) \<Rightarrow>
            (case addEpsilon h2 (start e) (start lhs) of
               Inl f \<Rightarrow> Inl f
             | Inr h3 \<Rightarrow>
                 (let (n, h4) = new_node h3 PipeNode in
                  case concatNode h4 e (Some n) of
                    Inl f \<Rightarrow> Inl f
                  | Inr (e', h5) \<Rightarrow>
                      (case concatNode h5 lhs (Some n) of
                         Inl f \<Rightarrow> Inl f
                       | Inr (lhs', h6) \<Rightarrow> Inr (e', p2, h6))))))"
| "parseTerm 0 p h = Inl OutOfFuel"
| "parseTerm (Suc n) p h =
    (let (r, p1) = peek p in
     if r = QMARK \<or> r = PLUS \<or> r = STAR then Inl (Err (InvalidCharacter r (pos p1)))
     else
       (case (if r = LPAREN then parseSubexp n p1 h
              else if r = BACKSLASH then parseEscape p1 h
              else if r = DOT then parseDot p1 h
              else parseLiteral p1 h) of
          Inl f \<Rightarrow> Inl f
        | Inr (e, p2, h2) \<Rightarrow>
            (let (r2, p3) = peek p2 in
             if r2 = QMARK \<or> r2 = PLUS \<or> r2 = STAR then parseMeta p3 h2 e
             else Inr (e, p3, h2))))"
| "parseSubexp 0 p h = Inl OutOfFuel"
| "parseSubexp (Suc n) p h =
    (let start_pos = pos p;
         (r0, p1) = parser_next p in
     case parseClause n p1 h no_expr of
       Inl f \<Rightarrow> Inl f
     | Inr (e, p2, h2) \<Rightarrow>
         (let (r, p3) = parser_next p2;
              (lp, h3) = new_node h2 LeftParenNode;
              (rp, h4) = new_node h3 RightParenNode
          in case concat_expr h4 \<lparr>start = Some lp, fin = Some lp\<rparr> e of
               Inl f \<Rightarrow> Inl f
             | Inr (e1, h5) \<Rightarrow>
                 (case concatNode h5 e1 (Some rp) of
                    Inl f \<Rightarrow> Inl f
                  | Inr (e2, h6) \<Rightarrow>
                      if r \<noteq> RPAREN then Inl (Err (UnterminatedSubexp start_pos))
                      else Inr (e2, p3, h6))))"

text \<open>
  The fuel \<^verbatim>\<open>parse\<close> starts with: every call of the parser that makes a further call
  consumes at least one byte first, at most three calls deep.
\<close>

definition fuel_of :: "string \<Rightarrow> nat" where
  "fuel_of s = 3 * length s + 1"

definition parse :: "string \<Rightarrow> failure + (node \<times> node \<times> heap)" where
  "parse s =
    (case parseClause (fuel_of s) \<lparr>inp = s, pos = 0, width = 0\<rparr> [] no_expr of
       Inl f \<Rightarrow> Inl f
     | Inr (e, p, h) \<Rightarrow>
         if pos p \<noteq> length s then
           (let (r, p') = peek (backup p) in Inl (Err (IllegalAt r (pos p'))))
         else
           (let (t, h1) = new_node h TerminalNode in
            case concatNode h1 e (Some t) of
              Inl f \<Rightarrow> Inl f
            | Inr (e', h2) \<Rightarrow> Inr (start e', fin e', h2)))"

section \<open>Regexp\<close>

text \<open>
  The compiled pattern, with the arena that holds the nodes its two node fields point
  into.
\<close>

record Regexp =
  rstart :: node
  rterm :: node
  pattern :: string
  nodes :: heap

definition Compile :: "string \<Rightarrow> failure + Regexp" where
  "Compile pat =
    (case parse pat of
       Inl f \<Rightarrow> Inl f
     | Inr (s, t, h) \<Rightarrow> Inr \<lparr>rstart = s, rterm = t, pattern = pat, nodes = h\<rparr>)"

definition MustCompile :: "string \<Rightarrow> failure + Regexp" where
  "MustCompile pat =
    (case Compile pat of
       Inl (Err e) \<Rightarrow> Inl (Panic (Raised e))
     | Inl f \<Rightarrow> Inl f
     | Inr r \<Rightarrow> Inr r)"

section \<open>nodeSet\<close>

text \<open>
  A \<^verbatim>\<open>nodeSet\<close> is a map whose keys are the members: a set of addresses.
  \<open>add_all h s es\<close> is the loop \<^verbatim>\<open>for _, e := range es { s.add(e) }\<close>, with the
  recursion of \<^verbatim>\<open>add\<close> unfolded into the list of the nodes still to add: adding a new
  node puts its epsilon successors in front of the rest. A call on nil inserts nil and
  panics at \<^verbatim>\<open>n.epsilons()\<close>.
\<close>

function add_all :: "heap \<Rightarrow> nat set \<Rightarrow> node list \<Rightarrow> failure + nat set" where
  "add_all h s [] = Inr s"
| "add_all h s (None # es) = Inl (Panic NilDereference)"
| "add_all h s (Some a # es) =
    (if a \<in> s then add_all h s es
     else if a < length h then add_all h (insert a s) (epsilons (h ! a) @ es)
     else Inl (Panic NilDereference))"
  by pat_completeness auto
termination
proof (relation "measures [\<lambda>(h, s, es). length h - card (s \<inter> {..<length h}),
                           \<lambda>(h, s, es). length es]")
  show "wf (measures [\<lambda>(h, s, es). length h - card (s \<inter> {..<length h}),
                      \<lambda>(h :: heap, s :: nat set, es :: node list). length es])"
    by simp
next
  fix h :: heap and s :: "nat set" and a :: nat and es :: "node list"
  assume "a \<in> s"
  then show "((h, s, es), (h, s, Some a # es))
      \<in> measures [\<lambda>(h, s, es). length h - card (s \<inter> {..<length h}),
                  \<lambda>(h, s, es). length es]"
    by simp
next
  fix h :: heap and s :: "nat set" and a :: nat and es :: "node list"
  assume a: "a \<notin> s" "a < length h"
  have fin: "finite (s \<inter> {..<length h})" by simp
  have eq: "insert a s \<inter> {..<length h} = insert a (s \<inter> {..<length h})"
    using a by auto
  have "card (insert a (s \<inter> {..<length h})) = Suc (card (s \<inter> {..<length h}))"
    using a fin by simp
  moreover have "card (insert a (s \<inter> {..<length h})) \<le> card {..<length h}"
    using a by (intro card_mono) auto
  ultimately have "length h - card (insert a s \<inter> {..<length h})
      < length h - card (s \<inter> {..<length h})"
    using eq by simp
  then show "((h, insert a s, epsilons (h ! a) @ es), (h, s, Some a # es))
      \<in> measures [\<lambda>(h, s, es). length h - card (s \<inter> {..<length h}),
                  \<lambda>(h, s, es). length es]"
    by simp
qed

definition add :: "heap \<Rightarrow> nat set \<Rightarrow> node \<Rightarrow> failure + nat set" where
  "add h s n = add_all h s [n]"

section \<open>Matching\<close>

text \<open>
  The inner loop of \<^verbatim>\<open>MatchString\<close>, \<^verbatim>\<open>for n := range cur\<close>, over the members of
  \<open>cur\<close> in the order the list gives them.
\<close>

fun step_nodes :: "heap \<Rightarrow> rune \<Rightarrow> nat list \<Rightarrow> nat set \<Rightarrow> failure + nat set" where
  "step_nodes h r [] nx = Inr nx"
| "step_nodes h r (n # ns) nx =
    (if n < length h \<and> isMatchNode (kind (h ! n)) \<and> matches (kind (h ! n)) r
     then (case add h nx (nxt (h ! n)) of
             Inl f \<Rightarrow> Inl f
           | Inr nx' \<Rightarrow> step_nodes h r ns nx')
     else step_nodes h r ns nx)"

text \<open>
  The outer loop, over the code points of the input. Go leaves the order in which a
  map is ranged over open: \<open>ord\<close> gives the order for each set, and the theorems below
  hold for every \<open>ord\<close> that lists each member once.
\<close>

fun match_loop ::
  "(nat set \<Rightarrow> nat list) \<Rightarrow> heap \<Rightarrow> node \<Rightarrow> nat set \<Rightarrow> rune list \<Rightarrow> failure + bool" where
  "match_loop ord h t cur [] =
    Inr (case t of None \<Rightarrow> False | Some a \<Rightarrow> a \<in> cur)"
| "match_loop ord h t cur (r # rs) =
    (case step_nodes h r (ord cur) {} of
       Inl f \<Rightarrow> Inl f
     | Inr nx \<Rightarrow> if nx = {} then Inr False else match_loop ord h t nx rs)"

definition MatchString :: "(nat set \<Rightarrow> nat list) \<Rightarrow> Regexp \<Rightarrow> string \<Rightarrow> failure + bool" where
  "MatchString ord re s =
    (case add (nodes re) {} (rstart re) of
       Inl f \<Rightarrow> Inl f
     | Inr cur \<Rightarrow> match_loop ord (nodes re) (rterm re) cur (runes s))"

definition enumerates :: "(nat set \<Rightarrow> nat list) \<Rightarrow> bool" where
  "enumerates ord = (\<forall>s. finite s \<longrightarrow> set (ord s) = s \<and> distinct (ord s))"

text \<open>
  A node is active for a code point when the type assertion \<^verbatim>\<open>n.(matchNode)\<close> holds and
  the node matches the code point: the condition of the inner loop.
\<close>

definition active :: "heap \<Rightarrow> rune \<Rightarrow> nat \<Rightarrow> bool" where
  "active h r n = (n < length h \<and> isMatchNode (kind (h ! n)) \<and> matches (kind (h ! n)) r)"

text \<open>
  The way \<^verbatim>\<open>concat\<close> wires the exit \<open>a\<close> of a fragment to a node \<open>b\<close>: the field
  \<^verbatim>\<open>n\<close> of a match node, an epsilon edge of any other node.
\<close>

definition wired :: "heap \<Rightarrow> nat \<Rightarrow> node \<Rightarrow> bool" where
  "wired h a b = (if isMatchNode (kind (h ! a)) then nxt (h ! a) = b else b \<in> set (epsilons (h ! a)))"

text \<open>
  A plain byte is an ASCII byte that is none of the characters \<^verbatim>\<open>( ) * + . ? \ |\<close>; the
  quantifiers are \<^verbatim>\<open>? + *\<close>.
\<close>

definition plain :: "char \<Rightarrow> bool" where
  "plain b = ((of_char b :: nat) < 0x80 \<and> (of_char b :: nat) \<notin> {0x28, 0x29, 0x2A, 0x2B, 0x2E, 0x3F, 0x5C, 0x7C})"

definition quantifier :: "char \<Rightarrow> bool" where
  "quantifier b = ((of_char b :: nat) \<in> {0x3F, 0x2B, 0x2A})"

text \<open>
  A fragment that \<^verbatim>\<open>concat\<close> can extend: it is empty, or its exit is a node of the arena.
\<close>

definition expr_ok :: "heap \<Rightarrow> expr \<Rightarrow> bool" where
  "expr_ok h e = (isEmpty e \<or> (\<exists>a. fin e = Some a \<and> a < length h))"

text \<open>
  The epsilon edges of an arena, the nodes reachable from a node by epsilon edges, a set
  closed under epsilon edges, and an arena whose epsilon lists hold addresses of the
  arena only (no nil).
\<close>

definition eps_edge :: "heap \<Rightarrow> (nat \<times> nat) set" where
  "eps_edge h = {(a, b). a < length h \<and> Some b \<in> set (epsilons (h ! a))}"

definition reach :: "heap \<Rightarrow> nat \<Rightarrow> nat set" where
  "reach h n = (eps_edge h)\<^sup>* `` {n}"

definition eps_closed :: "heap \<Rightarrow> nat set \<Rightarrow> bool" where
  "eps_closed h s = (\<forall>a\<in>s. \<forall>b. (a, b) \<in> eps_edge h \<longrightarrow> b \<in> s)"

definition wf_heap :: "heap \<Rightarrow> bool" where
  "wf_heap h = (\<forall>x\<in>set h. \<forall>e\<in>set (epsilons x). \<exists>b. e = Some b \<and> b < length h)"

text \<open>
  The metacharacters \<^verbatim>\<open>( ) * + . ? \ |\<close>. The graph of a pattern of literals: node \<open>i\<close>
  is the literal of the code point \<open>i\<close> and leads to node \<open>i + 1\<close>. While the clause is
  parsed, the last literal has no successor yet.
\<close>

definition meta :: "char \<Rightarrow> bool" where
  "meta b = ((of_char b :: nat) \<in> {0x28, 0x29, 0x2A, 0x2B, 0x2E, 0x3F, 0x5C, 0x7C})"

fun lit_nodes :: "nat \<Rightarrow> rune list \<Rightarrow> heap" where
  "lit_nodes i [] = []"
| "lit_nodes i (r # rs) =
    \<lparr>kind = LiteralNode r, epsilons = [], nxt = Some (Suc i)\<rparr> # lit_nodes (Suc i) rs"

definition pending :: "rune list \<Rightarrow> heap \<times> expr" where
  "pending rs =
    (if rs = [] then ([], no_expr)
     else (lit_nodes 0 (butlast rs) @ [\<lparr>kind = LiteralNode (last rs), epsilons = [], nxt = None\<rparr>],
           \<lparr>start = Some 0, fin = Some (length rs - 1)\<rparr>))"

text \<open>
  The scanner \<open>p'\<close> is the scanner \<open>p\<close> moved forward in the same pattern, and moved by at
  least one byte.
\<close>

definition advances :: "parser \<Rightarrow> parser \<Rightarrow> bool" where
  "advances p p' = (inp p' = inp p \<and> pos p \<le> pos p' \<and> pos p' \<le> length (inp p))"

definition consumes :: "parser \<Rightarrow> parser \<Rightarrow> bool" where
  "consumes p p' = (inp p' = inp p \<and> pos p < pos p' \<and> pos p' \<le> length (inp p))"

text \<open>
  What the fuel has to provide: a call with enough fuel for the rest of the pattern does
  not run out of it, and a call that returns has moved the scanner forward. A clause at
  \<open>k\<close> bytes from the end needs \<open>3 * k + 1\<close>, an alternation and a term \<open>3 * k\<close>, a
  subexpression \<open>3 * k - 1\<close>.
\<close>

definition clause_ok :: "nat \<Rightarrow> bool" where
  "clause_ok n = (\<forall>p h e. pos p \<le> length (inp p) \<longrightarrow>
     (3 * (length (inp p) - pos p) + 1 \<le> n \<longrightarrow> parseClause n p h e \<noteq> Inl OutOfFuel)
     \<and> (\<forall>e' p' h'. parseClause n p h e = Inr (e', p', h') \<longrightarrow> advances p p'))"

definition pipe_ok :: "nat \<Rightarrow> bool" where
  "pipe_ok n = (\<forall>p h e. pos p < length (inp p) \<longrightarrow>
     (3 * (length (inp p) - pos p) \<le> n \<longrightarrow> parsePipe n p h e \<noteq> Inl OutOfFuel)
     \<and> (\<forall>e' p' h'. parsePipe n p h e = Inr (e', p', h') \<longrightarrow> consumes p p'))"

definition term_ok :: "nat \<Rightarrow> bool" where
  "term_ok n = (\<forall>p h. pos p < length (inp p) \<longrightarrow>
     (3 * (length (inp p) - pos p) \<le> n \<longrightarrow> parseTerm n p h \<noteq> Inl OutOfFuel)
     \<and> (\<forall>e' p' h'. parseTerm n p h = Inr (e', p', h') \<longrightarrow> consumes p p'))"

definition subexp_ok :: "nat \<Rightarrow> bool" where
  "subexp_ok n = (\<forall>p h. pos p < length (inp p) \<longrightarrow>
     (3 * (length (inp p) - pos p) \<le> Suc n \<longrightarrow> parseSubexp n p h \<noteq> Inl OutOfFuel)
     \<and> (\<forall>e' p' h'. parseSubexp n p h = Inr (e', p', h') \<longrightarrow> consumes p p'))"

text \<open>
  The code point at the scanner. The scanner \<open>p'\<close> is \<open>p\<close> moved forward over code points
  none of which is the sentinel; the four parser functions keep this when they return
  a fragment.
\<close>

definition cur :: "parser \<Rightarrow> rune" where
  "cur p = fst (DecodeRuneInString (drop (pos p) (inp p)))"

definition clean :: "parser \<Rightarrow> parser \<Rightarrow> bool" where
  "clean p p' = (advances p p' \<and>
     (\<exists>rs. RuneError \<notin> set rs
        \<and> runes (drop (pos p) (inp p)) = rs @ runes (drop (pos p') (inp p))))"

definition clause_clean :: "nat \<Rightarrow> bool" where
  "clause_clean n = (\<forall>p h e e' p' h'. pos p \<le> length (inp p) \<longrightarrow>
     parseClause n p h e = Inr (e', p', h') \<longrightarrow> clean p p')"

definition pipe_clean :: "nat \<Rightarrow> bool" where
  "pipe_clean n = (\<forall>p h e e' p' h'. pos p \<le> length (inp p) \<longrightarrow> cur p \<noteq> RuneError \<longrightarrow>
     parsePipe n p h e = Inr (e', p', h') \<longrightarrow> clean p p')"

definition term_clean :: "nat \<Rightarrow> bool" where
  "term_clean n = (\<forall>p h e' p' h'. pos p \<le> length (inp p) \<longrightarrow> cur p \<noteq> RuneError \<longrightarrow>
     parseTerm n p h = Inr (e', p', h') \<longrightarrow> clean p p')"

definition subexp_clean :: "nat \<Rightarrow> bool" where
  "subexp_clean n = (\<forall>p h e' p' h'. pos p \<le> length (inp p) \<longrightarrow> cur p \<noteq> RuneError \<longrightarrow>
     parseSubexp n p h = Inr (e', p', h') \<longrightarrow> clean p p')"

text \<open>
  A fragment in the arena: its entry and its exit are nodes of the arena. A well-formed
  fragment is the empty fragment or a fragment in the arena.
\<close>

definition in_arena :: "heap \<Rightarrow> expr \<Rightarrow> bool" where
  "in_arena h e = (\<exists>a b. start e = Some a \<and> a < length h \<and> fin e = Some b \<and> b < length h)"

definition expr_wf :: "heap \<Rightarrow> expr \<Rightarrow> bool" where
  "expr_wf h e = (isEmpty e \<or> in_arena h e)"

text \<open>
  What the four parser functions keep when they return a fragment: the arena stays well
  formed and only grows, and the fragment is well formed in it; a term and a
  subexpression are never empty.
\<close>

definition clause_wf :: "nat \<Rightarrow> bool" where
  "clause_wf n = (\<forall>p h e e' p' h'. wf_heap h \<longrightarrow> expr_wf h e \<longrightarrow>
     parseClause n p h e = Inr (e', p', h') \<longrightarrow>
     wf_heap h' \<and> expr_wf h' e' \<and> length h \<le> length h')"

definition pipe_wf :: "nat \<Rightarrow> bool" where
  "pipe_wf n = (\<forall>p h e e' p' h'. wf_heap h \<longrightarrow> expr_wf h e \<longrightarrow>
     parsePipe n p h e = Inr (e', p', h') \<longrightarrow>
     wf_heap h' \<and> expr_wf h' e' \<and> length h \<le> length h')"

definition term_wf :: "nat \<Rightarrow> bool" where
  "term_wf n = (\<forall>p h e' p' h'. wf_heap h \<longrightarrow>
     parseTerm n p h = Inr (e', p', h') \<longrightarrow>
     wf_heap h' \<and> in_arena h' e' \<and> length h \<le> length h')"

definition subexp_wf :: "nat \<Rightarrow> bool" where
  "subexp_wf n = (\<forall>p h e' p' h'. wf_heap h \<longrightarrow>
     parseSubexp n p h = Inr (e', p', h') \<longrightarrow>
     wf_heap h' \<and> in_arena h' e' \<and> length h \<le> length h')"

text \<open>
  The node sets of the matcher. \<^verbatim>\<open>MatchString\<close> makes its two sets as empty maps, and
  changes them by \<^verbatim>\<open>add\<close> and \<^verbatim>\<open>clear\<close> only: every set it holds is the empty set or
  the result of \<^verbatim>\<open>add\<close> on such a set.
\<close>

inductive built :: "heap \<Rightarrow> nat set \<Rightarrow> bool" for h :: heap where
  built_empty: "built h {}"
| built_add: "built h s \<Longrightarrow> add h s n = Inr s' \<Longrightarrow> built h s'"

text \<open>
  A match node is linked when its field \<^verbatim>\<open>n\<close> is a node of the arena. While the parser
  runs, the exits of the fragments under construction are not linked yet: \<open>X\<close> holds the
  exits of the fragments of the callers, \<open>ends e\<close> the exit of the fragment \<open>e\<close>.
\<close>

definition linked :: "heap \<Rightarrow> nat \<Rightarrow> bool" where
  "linked h a = (isMatchNode (kind (h ! a)) \<longrightarrow> (\<exists>b. nxt (h ! a) = Some b \<and> b < length h))"

definition linked_except :: "heap \<Rightarrow> nat set \<Rightarrow> bool" where
  "linked_except h X = (\<forall>a<length h. a \<notin> X \<longrightarrow> linked h a)"

definition ends :: "expr \<Rightarrow> nat set" where
  "ends e = (case fin e of None \<Rightarrow> {} | Some b \<Rightarrow> {b})"

definition clause_ln :: "nat \<Rightarrow> bool" where
  "clause_ln n = (\<forall>p h e e' p' h' X. wf_heap h \<longrightarrow> expr_wf h e \<longrightarrow>
     linked_except h (X \<union> ends e) \<longrightarrow> parseClause n p h e = Inr (e', p', h') \<longrightarrow>
     linked_except h' (X \<union> ends e'))"

definition pipe_ln :: "nat \<Rightarrow> bool" where
  "pipe_ln n = (\<forall>p h e e' p' h' X. wf_heap h \<longrightarrow> expr_wf h e \<longrightarrow>
     linked_except h (X \<union> ends e) \<longrightarrow> parsePipe n p h e = Inr (e', p', h') \<longrightarrow>
     linked_except h' (X \<union> ends e'))"

definition term_ln :: "nat \<Rightarrow> bool" where
  "term_ln n = (\<forall>p h e' p' h' X. wf_heap h \<longrightarrow>
     linked_except h X \<longrightarrow> parseTerm n p h = Inr (e', p', h') \<longrightarrow>
     linked_except h' (X \<union> ends e'))"

definition subexp_ln :: "nat \<Rightarrow> bool" where
  "subexp_ln n = (\<forall>p h e' p' h' X. wf_heap h \<longrightarrow>
     linked_except h X \<longrightarrow> parseSubexp n p h = Inr (e', p', h') \<longrightarrow>
     linked_except h' (X \<union> ends e'))"

text \<open>
  Stacked quantifiers. The pattern is read byte by byte, and a backslash escapes the
  byte after it. \<open>stacked_from q s\<close> holds when two quantifier characters that are not
  escaped stand next to each other in \<open>s\<close>, or when \<open>q\<close> is set and \<open>s\<close> starts with a
  quantifier character (\<open>q\<close>: the byte before \<open>s\<close> is a quantifier character that is not
  escaped). A pattern is stacked when this holds from its start.

  \<open>carries q p q' p'\<close>: the scanner \<open>p'\<close> is in the same pattern as \<open>p\<close>, and a stacked
  quantifier in the rest of the pattern at \<open>p\<close> is still in the rest at \<open>p'\<close>; the four
  parser functions keep this when they return a fragment.
\<close>

fun stacked_from :: "bool \<Rightarrow> string \<Rightarrow> bool" where
  "stacked_from q [] = False"
| "stacked_from q (c # s) =
    (if quantifier c then q \<or> stacked_from True s
     else if c = CHR 0x5C then (case s of [] \<Rightarrow> False | d # t \<Rightarrow> stacked_from False t)
     else stacked_from False s)"

definition stacked :: "string \<Rightarrow> bool" where
  "stacked p = stacked_from False p"

definition carries :: "bool \<Rightarrow> parser \<Rightarrow> bool \<Rightarrow> parser \<Rightarrow> bool" where
  "carries q p q' p' = (inp p' = inp p \<and>
     (stacked_from q (drop (pos p) (inp p)) \<longrightarrow> stacked_from q' (drop (pos p') (inp p))))"

definition clause_st :: "nat \<Rightarrow> bool" where
  "clause_st n = (\<forall>p h e e' p' h'.
     parseClause n p h e = Inr (e', p', h') \<longrightarrow> carries True p True p')"

definition pipe_st :: "nat \<Rightarrow> bool" where
  "pipe_st n = (\<forall>p h e e' p' h'. cur p = PIPE \<longrightarrow>
     parsePipe n p h e = Inr (e', p', h') \<longrightarrow> carries True p True p')"

definition term_st :: "nat \<Rightarrow> bool" where
  "term_st n = (\<forall>p h e' p' h'.
     parseTerm n p h = Inr (e', p', h') \<longrightarrow> carries True p True p')"

definition subexp_st :: "nat \<Rightarrow> bool" where
  "subexp_st n = (\<forall>p h e' p' h'. cur p = LPAREN \<longrightarrow>
     parseSubexp n p h = Inr (e', p', h') \<longrightarrow> carries True p False p')"

text \<open>
  Patterns without the byte \<^verbatim>\<open>|\<close>: the parser never panics on them.
\<close>

definition no_pipe :: "parser \<Rightarrow> bool" where
  "no_pipe p = (CHR ''|'' \<notin> set (inp p))"

definition clause_np :: "nat \<Rightarrow> bool" where
  "clause_np n = (\<forall>p h e x. no_pipe p \<longrightarrow> wf_heap h \<longrightarrow> expr_wf h e \<longrightarrow>
     parseClause n p h e \<noteq> Inl (Panic x))"

definition term_np :: "nat \<Rightarrow> bool" where
  "term_np n = (\<forall>p h x. no_pipe p \<longrightarrow> wf_heap h \<longrightarrow>
     parseTerm n p h \<noteq> Inl (Panic x))"

definition subexp_np :: "nat \<Rightarrow> bool" where
  "subexp_np n = (\<forall>p h x. no_pipe p \<longrightarrow> wf_heap h \<longrightarrow>
     parseSubexp n p h \<noteq> Inl (Panic x))"

section \<open>Rules for running the model on a given pattern\<close>

declare parseClause.simps [simp del] parsePipe.simps [simp del]
  parseTerm.simps [simp del] parseSubexp.simps [simp del]

lemmas fuel_numeral =
  parseClause.simps(1) parsePipe.simps(1) parseTerm.simps(1) parseSubexp.simps(1)
  parseClause.simps(2)[of "pred_numeral k" for k, folded numeral_eq_Suc]
  parsePipe.simps(2)[of "pred_numeral k" for k, folded numeral_eq_Suc]
  parseTerm.simps(2)[of "pred_numeral k" for k, folded numeral_eq_Suc]
  parseSubexp.simps(2)[of "pred_numeral k" for k, folded numeral_eq_Suc]
  parseClause.simps(2)[of 0, folded One_nat_def]
  parsePipe.simps(2)[of 0, folded One_nat_def]
  parseTerm.simps(2)[of 0, folded One_nat_def]
  parseSubexp.simps(2)[of 0, folded One_nat_def]
  parseClause.simps(2)[of 0] parsePipe.simps(2)[of 0]
  parseTerm.simps(2)[of 0] parseSubexp.simps(2)[of 0]

lemmas run_parser = Compile_def parse_def fuel_of_def peek_def parser_next_def backup_def
  parseLiteral_def parseDot_def parseEscape_def parseMeta_def new_node_def concat_expr_def
  concatNode_def isEmpty_def no_expr_def fuel_numeral

lemma runes_Nil: "runes [] = []"
  by (simp add: runes.simps)

lemma runes_Cons:
  "runes (c # cs) =
    fst (DecodeRuneInString (c # cs)) # runes (drop (snd (DecodeRuneInString (c # cs))) (c # cs))"
  by (subst runes.simps) simp

lemma runes_nonempty: "s \<noteq> [] \<Longrightarrow> \<exists>r rs. runes s = r # rs"
  by (subst runes.simps) simp

subsection \<open>One step of the matcher, for every order of the live set\<close>

lemma step_nodes_none:
  "\<forall>n\<in>set ns. \<not> active h r n \<Longrightarrow> step_nodes h r ns nx = Inr nx"
  by (induction ns) (auto simp: active_def)

lemma step_nodes_one:
  "distinct ns \<Longrightarrow> k \<in> set ns \<Longrightarrow> active h r k
    \<Longrightarrow> \<forall>n\<in>set ns. n \<noteq> k \<longrightarrow> \<not> active h r n
    \<Longrightarrow> step_nodes h r ns nx = add h nx (nxt (h ! k))"
proof (induction ns)
  case Nil
  then show ?case by simp
next
  case (Cons n ns)
  show ?case
  proof (cases "n = k")
    case True
    with Cons.prems have "\<forall>m\<in>set ns. \<not> active h r m" by auto
    then have "\<And>nx'. step_nodes h r ns nx' = Inr nx'" by (rule step_nodes_none)
    with True Cons.prems(3) show ?thesis
      by (simp add: active_def split: sum.splits)
  next
    case False
    with Cons.prems have "\<not> active h r n" "k \<in> set ns" "distinct ns"
      "\<forall>m\<in>set ns. m \<noteq> k \<longrightarrow> \<not> active h r m" by auto
    with Cons.IH Cons.prems(3) show ?thesis by (auto simp: active_def)
  qed
qed

lemma step_ord_none:
  "enumerates ord \<Longrightarrow> finite S \<Longrightarrow> \<forall>n\<in>S. \<not> active h r n
    \<Longrightarrow> step_nodes h r (ord S) nx = Inr nx"
  by (rule step_nodes_none) (simp add: enumerates_def)

lemma step_ord_one:
  "enumerates ord \<Longrightarrow> finite S \<Longrightarrow> k \<in> S \<Longrightarrow> active h r k
    \<Longrightarrow> \<forall>n\<in>S. n \<noteq> k \<longrightarrow> \<not> active h r n
    \<Longrightarrow> step_nodes h r (ord S) nx = add h nx (nxt (h ! k))"
  by (rule step_nodes_one) (simp_all add: enumerates_def)

lemma enumerates_sorted_list: "enumerates sorted_list_of_set"
  by (simp add: enumerates_def)

section \<open>Properties of the decoder\<close>

text \<open>The decoder by the range of the first byte.\<close>

lemma decode_bad_first:
  "0x80 \<le> (of_char c :: nat) \<Longrightarrow> (of_char c :: nat) < 0xC2 \<or> 0xF4 < (of_char c :: nat)
    \<Longrightarrow> DecodeRuneInString (c # u) = (RuneError, 1)"
  by (simp add: Let_def)

lemma decode_two:
  "0xC2 \<le> (of_char c :: nat) \<Longrightarrow> (of_char c :: nat) < 0xE0 \<Longrightarrow>
    DecodeRuneInString (c # u) =
      (if u = [] \<or> (of_char (u ! 0) :: nat) < 0x80 \<or> 0xBF < (of_char (u ! 0) :: nat)
       then (RuneError, 1)
       else ((of_char c mod 32) * 64 + of_char (u ! 0) mod 64, 2))"
  by (cases u) (simp_all add: Let_def)

lemma decode_three:
  "0xE0 \<le> (of_char c :: nat) \<Longrightarrow> (of_char c :: nat) < 0xF0 \<Longrightarrow>
    DecodeRuneInString (c # u) =
      (if length u < 2
          \<or> (of_char (u ! 0) :: nat) < (if (of_char c :: nat) = 0xE0 then 0xA0 else 0x80)
          \<or> (if (of_char c :: nat) = 0xED then 0x9F else 0xBF) < (of_char (u ! 0) :: nat)
          \<or> (of_char (u ! 1) :: nat) < 0x80 \<or> 0xBF < (of_char (u ! 1) :: nat)
       then (RuneError, 1)
       else ((of_char c mod 16) * 4096 + (of_char (u ! 0) mod 64) * 64 + of_char (u ! 1) mod 64, 3))"
  by (auto simp: Let_def)

lemma decode_four:
  "0xF0 \<le> (of_char c :: nat) \<Longrightarrow> (of_char c :: nat) \<le> 0xF4 \<Longrightarrow>
    DecodeRuneInString (c # u) =
      (if length u < 3
          \<or> (of_char (u ! 0) :: nat) < (if (of_char c :: nat) = 0xF0 then 0x90 else 0x80)
          \<or> (if (of_char c :: nat) = 0xF4 then 0x8F else 0xBF) < (of_char (u ! 0) :: nat)
          \<or> (of_char (u ! 1) :: nat) < 0x80 \<or> 0xBF < (of_char (u ! 1) :: nat)
          \<or> (of_char (u ! 2) :: nat) < 0x80 \<or> 0xBF < (of_char (u ! 2) :: nat)
       then (RuneError, 1)
       else ((of_char c mod 8) * 262144 + (of_char (u ! 0) mod 64) * 4096
               + (of_char (u ! 1) mod 64) * 64 + of_char (u ! 2) mod 64, 4))"
  by (auto simp: Let_def)


lemma first_byte_cases:
  fixes s0 :: nat
  obtains (ascii) "s0 < 0x80"
  | (bad) "0x80 \<le> s0" "s0 < 0xC2 \<or> 0xF4 < s0"
  | (two) "0xC2 \<le> s0" "s0 < 0xE0"
  | (three) "0xE0 \<le> s0" "s0 < 0xF0"
  | (four) "0xF0 \<le> s0" "s0 \<le> 0xF4"
  by linarith

lemma mod_in_block:
  fixes x k a :: nat
  assumes "a * k \<le> x" "x < a * k + k"
  shows "x mod k = x - a * k"
proof -
  have "x = (x - a * k) + a * k" using assms by simp
  then have "x mod k = ((x - a * k) + a * k) mod k" by simp
  also have "\<dots> = (x - a * k) mod k" by (rule mod_mult_self1)
  also have "\<dots> = x - a * k" using assms by simp
  finally show ?thesis .
qed

lemma mod_bounds:
  fixes x :: nat
  shows "160 \<le> x \<Longrightarrow> x \<le> 191 \<Longrightarrow> 32 \<le> x mod 64"
    and "144 \<le> x \<Longrightarrow> x \<le> 191 \<Longrightarrow> 16 \<le> x mod 64"
    and "224 < x \<Longrightarrow> x < 240 \<Longrightarrow> 1 \<le> x mod 16"
    and "240 < x \<Longrightarrow> x \<le> 244 \<Longrightarrow> 1 \<le> x mod 8"
    and "194 \<le> x \<Longrightarrow> x < 224 \<Longrightarrow> 2 \<le> x mod 32"
  using mod_in_block[of 2 64 x] mod_in_block[of 14 16 x] mod_in_block[of 30 8 x]
    mod_in_block[of 6 32 x]
  by simp_all

lemma decode_width_le: "snd (DecodeRuneInString s) \<le> length s"
proof (cases s)
  case Nil
  then show ?thesis by simp
next
  case (Cons c u)
  show ?thesis
  proof (cases "of_char c :: nat" rule: first_byte_cases)
    case ascii
    then show ?thesis using Cons by simp
  next
    case bad
    then show ?thesis using Cons by (simp add: decode_bad_first del: DecodeRuneInString.simps)
  next
    case two
    then show ?thesis using Cons
      by (cases u) (simp_all add: decode_two del: DecodeRuneInString.simps)
  next
    case three
    then show ?thesis using Cons by (simp add: decode_three del: DecodeRuneInString.simps)
  next
    case four
    then show ?thesis using Cons by (simp add: decode_four del: DecodeRuneInString.simps)
  qed
qed

lemma decode_stable:
  assumes "fst (DecodeRuneInString s) \<noteq> RuneError \<or> 1 < snd (DecodeRuneInString s)"
  shows "DecodeRuneInString (s @ t) = DecodeRuneInString s"
proof (cases s)
  case Nil
  with assms show ?thesis by simp
next
  case (Cons c u)
  show ?thesis
  proof (cases "of_char c :: nat" rule: first_byte_cases)
    case ascii
    then show ?thesis using Cons by simp
  next
    case bad
    then show ?thesis using Cons by (simp add: decode_bad_first del: DecodeRuneInString.simps)
  next
    case two
    have "u \<noteq> []"
      using assms Cons two by (auto simp: decode_two simp del: DecodeRuneInString.simps)
    then have "(u @ t) ! 0 = u ! 0" by (simp add: nth_append)
    with \<open>u \<noteq> []\<close> show ?thesis
      unfolding Cons append_Cons decode_two[OF two, of "u @ t"] decode_two[OF two, of u]
      by simp
  next
    case three
    have "\<not> length u < 2"
      using assms Cons three by (auto simp: decode_three simp del: DecodeRuneInString.simps)
    then have "(u @ t) ! 0 = u ! 0" "(u @ t) ! 1 = u ! 1" "\<not> length (u @ t) < 2"
      by (auto simp: nth_append)
    then show ?thesis
      unfolding Cons append_Cons decode_three[OF three, of "u @ t"] decode_three[OF three, of u]
      using \<open>\<not> length u < 2\<close> by simp
  next
    case four
    have "\<not> length u < 3"
      using assms Cons four by (auto simp: decode_four simp del: DecodeRuneInString.simps)
    then have "(u @ t) ! 0 = u ! 0" "(u @ t) ! 1 = u ! 1" "(u @ t) ! 2 = u ! 2"
      "\<not> length (u @ t) < 3"
      by (auto simp: nth_append)
    then show ?thesis
      unfolding Cons append_Cons decode_four[OF four, of "u @ t"] decode_four[OF four, of u]
      using \<open>\<not> length u < 3\<close> by simp
  qed
qed

lemma decode_multibyte_ge:
  assumes "1 < snd (DecodeRuneInString s)"
  shows "0x80 \<le> fst (DecodeRuneInString s)"
proof (cases s)
  case Nil
  with assms show ?thesis by simp
next
  case (Cons c u)
  show ?thesis
  proof (cases "of_char c :: nat" rule: first_byte_cases)
    case ascii
    then show ?thesis using Cons assms by simp
  next
    case bad
    then show ?thesis using Cons assms by (simp add: decode_bad_first del: DecodeRuneInString.simps)
  next
    case two
    then have "2 \<le> (of_char c :: nat) mod 32" by (simp add: mod_bounds(5))
    then have "128 \<le> (of_char c :: nat) mod 32 * 64" by simp
    then show ?thesis using Cons assms two
      by (simp add: decode_two del: DecodeRuneInString.simps split: if_splits)
  next
    case three
    show ?thesis
    proof (cases "(of_char c :: nat) = 224")
      case True
      then show ?thesis
        using Cons assms mod_bounds(1)[of "of_char (u ! 0)"]
        by (auto simp: decode_three simp del: DecodeRuneInString.simps split: if_splits)
    next
      case False
      with three have "1 \<le> (of_char c :: nat) mod 16"
        using mod_bounds(3)[of "of_char c"] by simp
      then have "4096 \<le> (of_char c :: nat) mod 16 * 4096" by simp
      then show ?thesis
        using Cons assms three
        by (auto simp: decode_three simp del: DecodeRuneInString.simps split: if_splits)
    qed
  next
    case four
    show ?thesis
    proof (cases "(of_char c :: nat) = 240")
      case True
      then show ?thesis
        using Cons assms mod_bounds(2)[of "of_char (u ! 0)"]
        by (auto simp: decode_four simp del: DecodeRuneInString.simps split: if_splits)
    next
      case False
      with four have "1 \<le> (of_char c :: nat) mod 8"
        using mod_bounds(4)[of "of_char c"] by simp
      then have "262144 \<le> (of_char c :: nat) mod 8 * 262144" by simp
      then show ?thesis
        using Cons assms four
        by (auto simp: decode_four simp del: DecodeRuneInString.simps split: if_splits)
    qed
  qed
qed

lemma decode_single:
  assumes "snd (DecodeRuneInString (c # u)) \<le> 1"
  shows "fst (DecodeRuneInString (c # u)) = RuneError
    \<or> fst (DecodeRuneInString (c # u)) = of_char c"
proof (cases "of_char c :: nat" rule: first_byte_cases)
  case ascii
  then show ?thesis by simp
next
  case bad
  then show ?thesis by (simp add: decode_bad_first del: DecodeRuneInString.simps)
next
  case two
  then show ?thesis using assms
    by (auto simp: decode_two simp del: DecodeRuneInString.simps split: if_splits)
next
  case three
  then show ?thesis using assms
    by (auto simp: decode_three simp del: DecodeRuneInString.simps split: if_splits)
next
  case four
  then show ?thesis using assms
    by (auto simp: decode_four simp del: DecodeRuneInString.simps split: if_splits)
qed

section \<open>The fuel is enough\<close>

lemma decode_width_pos: "s \<noteq> [] \<Longrightarrow> 0 < snd (DecodeRuneInString s)"
  by (cases s) (simp_all add: Let_def)

lemma next_advances:
  assumes "parser_next p = (r, p1)" "pos p \<le> length (inp p)"
  shows "advances p p1" and "pos p < length (inp p) \<Longrightarrow> consumes p p1"
proof -
  let ?t = "drop (pos p) (inp p)"
  have le: "snd (DecodeRuneInString ?t) \<le> length ?t" by (rule decode_width_le)
  from assms have p1: "p1 = p\<lparr>pos := pos p + snd (DecodeRuneInString ?t),
      width := snd (DecodeRuneInString ?t)\<rparr>"
    by (auto simp: parser_next_def split: prod.splits)
  show "advances p p1" using le assms(2) by (simp add: p1 advances_def)
  assume "pos p < length (inp p)"
  then have "?t \<noteq> []" by simp
  then have "0 < snd (DecodeRuneInString ?t)" by (rule decode_width_pos)
  then show "consumes p p1" using le assms(2) by (simp add: p1 consumes_def)
qed

lemma peek_same:
  assumes "peek p = (r, p1)"
  shows "inp p1 = inp p" "pos p1 = pos p" "r \<noteq> RuneError \<Longrightarrow> pos p < length (inp p)"
proof -
  from assms have p1: "p1 = p\<lparr>width := 0\<rparr>"
    and r: "r = fst (DecodeRuneInString (drop (pos p) (inp p)))"
    by (auto simp: peek_def parser_next_def backup_def split: prod.splits)
  show "inp p1 = inp p" "pos p1 = pos p" by (simp_all add: p1)
  assume "r \<noteq> RuneError"
  with r have "drop (pos p) (inp p) \<noteq> []" by auto
  then show "pos p < length (inp p)" by simp
qed

lemma advances_trans: "advances p p1 \<Longrightarrow> advances p1 p2 \<Longrightarrow> advances p p2"
  by (auto simp: advances_def)

lemma consumes_advances: "consumes p p1 \<Longrightarrow> advances p1 p2 \<Longrightarrow> consumes p p2"
  by (auto simp: advances_def consumes_def)

lemma advances_consumes: "advances p p1 \<Longrightarrow> consumes p1 p2 \<Longrightarrow> consumes p p2"
  by (auto simp: advances_def consumes_def)

lemma peek_advances:
  assumes "peek p = (r, p1)" "pos p \<le> length (inp p)"
  shows "advances p p1" "advances p1 p"
  using peek_same(1,2)[OF assms(1)] assms(2) by (simp_all add: advances_def)

lemma parseLiteral_consumes:
  assumes "parseLiteral p h = Inr (e, p', h')" "pos p < length (inp p)"
  shows "consumes p p'"
proof -
  obtain r p1 where n: "parser_next p = (r, p1)" by (cases "parser_next p")
  with assms(1) have "p' = p1" by (simp add: parseLiteral_def new_node_def)
  with next_advances(2)[OF n] assms(2) show ?thesis by simp
qed

lemma parseDot_consumes:
  assumes "parseDot p h = Inr (e, p', h')" "pos p < length (inp p)"
  shows "consumes p p'"
proof -
  obtain r p1 where n: "parser_next p = (r, p1)" by (cases "parser_next p")
  with assms(1) have "p' = p1" by (simp add: parseDot_def new_node_def)
  with next_advances(2)[OF n] assms(2) show ?thesis by simp
qed

lemma parseEscape_consumes:
  assumes "parseEscape p h = Inr (e, p', h')" "pos p < length (inp p)"
  shows "consumes p p'"
proof -
  obtain r0 p1 where n: "parser_next p = (r0, p1)" by (cases "parser_next p")
  obtain r p2 where k: "peek p1 = (r, p2)" by (cases "peek p1")
  from next_advances(2)[OF n] assms(2) have c1: "consumes p p1" by simp
  then have le1: "pos p1 \<le> length (inp p1)" by (simp add: consumes_def)
  from assms(1) n k have lit: "parseLiteral p2 h = Inr (e, p', h')"
    by (simp add: parseEscape_def split: if_splits)
  obtain r3 p3 where n3: "parser_next p2 = (r3, p3)" by (cases "parser_next p2")
  with lit have "p' = p3" by (simp add: parseLiteral_def new_node_def)
  moreover have "pos p2 \<le> length (inp p2)"
    using peek_same(1,2)[OF k] le1 by simp
  ultimately have "advances p2 p'" using next_advances(1)[OF n3] by simp
  with peek_advances(1)[OF k le1] have "advances p1 p'" by (rule advances_trans)
  with c1 show ?thesis by (rule consumes_advances)
qed

lemma parseMeta_advances:
  assumes "parseMeta p h t = Inr (e, p', h')" "pos p \<le> length (inp p)"
  shows "advances p p'"
proof -
  obtain mc p1 where n: "parser_next p = (mc, p1)" by (cases "parser_next p")
  with assms(1) have "p' = p1"
    by (auto simp: parseMeta_def Let_def split: sum.splits prod.splits if_splits)
  with next_advances(1)[OF n assms(2)] show ?thesis by simp
qed


lemma addEpsilon_fuel: "addEpsilon h a b \<noteq> Inl OutOfFuel"
  by (cases a) simp_all

lemma setNext_fuel: "setNext h a b \<noteq> Inl OutOfFuel"
  by (cases a) simp_all

lemma concat_expr_fuel: "concat_expr h e nx \<noteq> Inl OutOfFuel"
  using addEpsilon_fuel setNext_fuel
  by (auto simp: concat_expr_def split: option.splits sum.splits)

lemma concatNode_fuel: "concatNode h e n \<noteq> Inl OutOfFuel"
  by (simp add: concatNode_def concat_expr_fuel)

lemma parseLiteral_fuel: "parseLiteral p h \<noteq> Inl OutOfFuel"
  by (simp add: parseLiteral_def Let_def split: prod.splits)

lemma parseDot_fuel: "parseDot p h \<noteq> Inl OutOfFuel"
  by (simp add: parseDot_def Let_def split: prod.splits)

lemma parseEscape_fuel: "parseEscape p h \<noteq> Inl OutOfFuel"
  using parseLiteral_fuel by (simp add: parseEscape_def Let_def split: prod.splits)

lemma parseMeta_fuel: "parseMeta p h t \<noteq> Inl OutOfFuel"
  using addEpsilon_fuel concatNode_fuel
  by (auto simp: parseMeta_def Let_def new_node_def split: prod.splits sum.splits if_splits)

lemma clause_okD:
  assumes "clause_ok n" "pos p \<le> length (inp p)"
  shows "3 * (length (inp p) - pos p) + 1 \<le> n \<Longrightarrow> parseClause n p h e \<noteq> Inl OutOfFuel"
    and "parseClause n p h e = Inr (e', p', h') \<Longrightarrow> advances p p'"
  using assms unfolding clause_ok_def by blast+

lemma pipe_okD:
  assumes "pipe_ok n" "pos p < length (inp p)"
  shows "3 * (length (inp p) - pos p) \<le> n \<Longrightarrow> parsePipe n p h e \<noteq> Inl OutOfFuel"
    and "parsePipe n p h e = Inr (e', p', h') \<Longrightarrow> consumes p p'"
  using assms unfolding pipe_ok_def by blast+

lemma term_okD:
  assumes "term_ok n" "pos p < length (inp p)"
  shows "3 * (length (inp p) - pos p) \<le> n \<Longrightarrow> parseTerm n p h \<noteq> Inl OutOfFuel"
    and "parseTerm n p h = Inr (e', p', h') \<Longrightarrow> consumes p p'"
  using assms unfolding term_ok_def by blast+

lemma subexp_okD:
  assumes "subexp_ok n" "pos p < length (inp p)"
  shows "3 * (length (inp p) - pos p) \<le> Suc n \<Longrightarrow> parseSubexp n p h \<noteq> Inl OutOfFuel"
    and "parseSubexp n p h = Inr (e', p', h') \<Longrightarrow> consumes p p'"
  using assms unfolding subexp_ok_def by blast+

lemma clause_step:
  assumes c: "clause_ok n" and pi: "pipe_ok n" and t: "term_ok n"
  shows "clause_ok (Suc n)"
  unfolding clause_ok_def
proof (intro allI impI)
  fix p :: parser and h :: heap and e :: expr
  assume le: "pos p \<le> length (inp p)"
  obtain r p1 where pk: "peek p = (r, p1)" by (cases "peek p")
  note same = peek_same[OF pk]
  have a1: "advances p p1" by (rule peek_advances(1)[OF pk le])
  consider (stop) "r = RuneError \<or> r = RPAREN"
    | (pipe) "r \<noteq> RuneError" "r \<noteq> RPAREN" "r = PIPE"
    | (trm) "r \<noteq> RuneError" "r \<noteq> RPAREN" "r \<noteq> PIPE"
    by blast
  then show "(3 * (length (inp p) - pos p) + 1 \<le> Suc n \<longrightarrow> parseClause (Suc n) p h e \<noteq> Inl OutOfFuel)
     \<and> (\<forall>e' p' h'. parseClause (Suc n) p h e = Inr (e', p', h') \<longrightarrow> advances p p')"
  proof cases
    case stop
    then have "parseClause (Suc n) p h e = Inr (e, p1, h)"
      using pk by (auto simp: parseClause.simps)
    with a1 show ?thesis by simp
  next
    case pipe
    have lt: "pos p1 < length (inp p1)" using same pipe(1) by simp
    have eq: "parseClause (Suc n) p h e =
        (case parsePipe n p1 h e of Inl f \<Rightarrow> Inl f
         | Inr (e', p2, h2) \<Rightarrow> parseClause n p2 h2 e')"
      using pk pipe by (simp add: parseClause.simps)
    show ?thesis
    proof (cases "parsePipe n p1 h e")
      case (Inl f)
      have "3 * (length (inp p) - pos p) + 1 \<le> Suc n \<Longrightarrow> f \<noteq> OutOfFuel"
        using pipe_okD(1)[OF pi lt, of h e] Inl same by auto
      then show ?thesis using eq Inl by simp
    next
      case (Inr x)
      obtain e2 p2 h2 where x: "x = (e2, p2, h2)" by (cases x)
      have c2: "consumes p1 p2" using pipe_okD(2)[OF pi lt] Inr x by simp
      then have le2: "pos p2 \<le> length (inp p2)" and i2: "inp p2 = inp p"
        and lt2: "pos p < pos p2"
        using same by (simp_all add: consumes_def)
      have f: "3 * (length (inp p) - pos p) + 1 \<le> Suc n \<Longrightarrow> parseClause n p2 h2 e2 \<noteq> Inl OutOfFuel"
        using clause_okD(1)[OF c le2, of h2 e2] i2 lt2 le2 by simp
      have a: "advances p p'" if r: "parseClause n p2 h2 e2 = Inr (e', p', h')" for e' p' h'
      proof -
        have "advances p2 p'" by (rule clause_okD(2)[OF c le2 r])
        with c2 have "consumes p1 p'" by (rule consumes_advances)
        with a1 have "consumes p p'" by (rule advances_consumes)
        then show ?thesis by (simp add: advances_def consumes_def)
      qed
      show ?thesis using eq Inr x f a by simp
    qed
  next
    case trm
    have lt: "pos p1 < length (inp p1)" using same trm(1) by simp
    have eq: "parseClause (Suc n) p h e =
        (case parseTerm n p1 h of Inl f \<Rightarrow> Inl f
         | Inr (nx, p2, h2) \<Rightarrow>
             (case concat_expr h2 e nx of Inl f \<Rightarrow> Inl f
              | Inr (e', h3) \<Rightarrow> parseClause n p2 h3 e'))"
      using pk trm by (simp add: parseClause.simps)
    show ?thesis
    proof (cases "parseTerm n p1 h")
      case (Inl f)
      have "3 * (length (inp p) - pos p) + 1 \<le> Suc n \<Longrightarrow> f \<noteq> OutOfFuel"
        using term_okD(1)[OF t lt, of h] Inl same by auto
      then show ?thesis using eq Inl by simp
    next
      case (Inr x)
      obtain nx p2 h2 where x: "x = (nx, p2, h2)" by (cases x)
      have c2: "consumes p1 p2" using term_okD(2)[OF t lt] Inr x by simp
      then have le2: "pos p2 \<le> length (inp p2)" and i2: "inp p2 = inp p"
        and lt2: "pos p < pos p2"
        using same by (simp_all add: consumes_def)
      show ?thesis
      proof (cases "concat_expr h2 e nx")
        case (Inl f)
        then have "f \<noteq> OutOfFuel" using concat_expr_fuel[of h2 e nx] by auto
        then show ?thesis using eq Inr x Inl by simp
      next
        case (Inr y)
        obtain e3 h3 where y: "y = (e3, h3)" by (cases y)
        have f: "3 * (length (inp p) - pos p) + 1 \<le> Suc n \<Longrightarrow> parseClause n p2 h3 e3 \<noteq> Inl OutOfFuel"
          using clause_okD(1)[OF c le2, of h3 e3] i2 lt2 le2 by simp
        have a: "advances p p'" if r: "parseClause n p2 h3 e3 = Inr (e', p', h')" for e' p' h'
        proof -
          have "advances p2 p'" by (rule clause_okD(2)[OF c le2 r])
          with c2 have "consumes p1 p'" by (rule consumes_advances)
          with a1 have "consumes p p'" by (rule advances_consumes)
          then show ?thesis by (simp add: advances_def consumes_def)
        qed
        show ?thesis using eq \<open>parseTerm n p1 h = Inr x\<close> x Inr y f a by simp
      qed
    qed
  qed
qed


lemma pipe_step:
  assumes c: "clause_ok n"
  shows "pipe_ok (Suc n)"
  unfolding pipe_ok_def
proof (intro allI impI)
  fix p :: parser and h :: heap and lhs :: expr
  assume lt: "pos p < length (inp p)"
  obtain r0 p1 where nx: "parser_next p = (r0, p1)" by (cases "parser_next p")
  have c1: "consumes p p1" using next_advances(2)[OF nx] lt by simp
  then have le1: "pos p1 \<le> length (inp p1)" and i1: "inp p1 = inp p" and lt1: "pos p < pos p1"
    by (simp_all add: consumes_def)
  show "(3 * (length (inp p) - pos p) \<le> Suc n \<longrightarrow> parsePipe (Suc n) p h lhs \<noteq> Inl OutOfFuel)
     \<and> (\<forall>e' p' h'. parsePipe (Suc n) p h lhs = Inr (e', p', h') \<longrightarrow> consumes p p')"
  proof (cases "isEmpty lhs")
    case True
    then show ?thesis using nx by (simp add: parsePipe.simps split: prod.splits)
  next
    case False
    let ?rest = "\<lambda>e p2 h2.
        (case addEpsilon h2 (start e) (start lhs) of
           Inl f \<Rightarrow> Inl f
         | Inr h3 \<Rightarrow>
             (let (n, h4) = new_node h3 PipeNode in
              case concatNode h4 e (Some n) of
                Inl f \<Rightarrow> Inl f
              | Inr (e', h5) \<Rightarrow>
                  (case concatNode h5 lhs (Some n) of
                     Inl f \<Rightarrow> Inl f
                   | Inr (lhs', h6) \<Rightarrow> Inr (e', p2, h6))))"
    have eq: "parsePipe (Suc n) p h lhs =
        (case parseClause n p1 h no_expr of Inl f \<Rightarrow> Inl f
         | Inr (e, p2, h2) \<Rightarrow> ?rest e p2 h2)"
      using nx False by (simp add: parsePipe.simps)
    have rest_fuel: "?rest e p2 h2 \<noteq> Inl OutOfFuel" for e p2 h2
      using addEpsilon_fuel concatNode_fuel
      by (auto simp: new_node_def split: sum.splits)
    have rest_pos: "p' = p2" if "?rest e p2 h2 = Inr (e', p', h')" for e p2 h2 e' p' h'
      using that by (auto simp: new_node_def split: sum.splits)
    show ?thesis
    proof (cases "parseClause n p1 h no_expr")
      case (Inl f)
      have "3 * (length (inp p) - pos p) \<le> Suc n \<Longrightarrow> f \<noteq> OutOfFuel"
        using clause_okD(1)[OF c le1, of h no_expr] Inl i1 lt1 le1 by auto
      then show ?thesis using eq Inl by simp
    next
      case (Inr x)
      obtain e2 p2 h2 where x: "x = (e2, p2, h2)" by (cases x)
      have a2: "advances p1 p2" using clause_okD(2)[OF c le1] Inr x by simp
      have c2: "consumes p p2" by (rule consumes_advances[OF c1 a2])
      define R where "R = ?rest e2 p2 h2"
      have eq2: "parsePipe (Suc n) p h lhs = R"
        using eq Inr x by (simp add: R_def)
      have r1: "R \<noteq> Inl OutOfFuel"
        unfolding R_def by (rule rest_fuel)
      have r2: "p' = p2" if "R = Inr (e', p', h')" for e' p' h'
        using that unfolding R_def by (rule rest_pos)
      show ?thesis
        unfolding eq2 using r1 r2 c2 by auto
    qed
  qed
qed

lemma term_step:
  assumes sb: "subexp_ok n"
  shows "term_ok (Suc n)"
  unfolding term_ok_def
proof (intro allI impI)
  fix p :: parser and h :: heap
  assume lt: "pos p < length (inp p)"
  obtain r p1 where pk: "peek p = (r, p1)" by (cases "peek p")
  note same = peek_same(1,2)[OF pk]
  have lt1: "pos p1 < length (inp p1)" using same lt by simp
  have a1: "advances p p1" using peek_advances(1)[OF pk] lt by simp
  show "(3 * (length (inp p) - pos p) \<le> Suc n \<longrightarrow> parseTerm (Suc n) p h \<noteq> Inl OutOfFuel)
     \<and> (\<forall>e' p' h'. parseTerm (Suc n) p h = Inr (e', p', h') \<longrightarrow> consumes p p')"
  proof (cases "r = QMARK \<or> r = PLUS \<or> r = STAR")
    case True
    then show ?thesis using pk by (auto simp: parseTerm.simps)
  next
    case False
    let ?atom = "if r = LPAREN then parseSubexp n p1 h
              else if r = BACKSLASH then parseEscape p1 h
              else if r = DOT then parseDot p1 h
              else parseLiteral p1 h"
    have eq: "parseTerm (Suc n) p h =
        (case ?atom of Inl f \<Rightarrow> Inl f
         | Inr (e, p2, h2) \<Rightarrow>
             (let (r2, p3) = peek p2 in
              if r2 = QMARK \<or> r2 = PLUS \<or> r2 = STAR then parseMeta p3 h2 e
              else Inr (e, p3, h2)))"
      using pk False by (simp add: parseTerm.simps)
    have atom_fuel: "3 * (length (inp p) - pos p) \<le> Suc n \<Longrightarrow> ?atom \<noteq> Inl OutOfFuel"
      using subexp_okD(1)[OF sb lt1, of h] same parseEscape_fuel parseDot_fuel parseLiteral_fuel
      by auto
    have atom_pos: "consumes p1 p2" if "?atom = Inr (e, p2, h2)" for e p2 h2
      using that subexp_okD(2)[OF sb lt1] parseEscape_consumes[OF _ lt1]
        parseDot_consumes[OF _ lt1] parseLiteral_consumes[OF _ lt1]
      by (auto split: if_splits)
    show ?thesis
    proof (cases ?atom)
      case (Inl f)
      then show ?thesis using eq atom_fuel by auto
    next
      case (Inr x)
      obtain e2 p2 h2 where x: "x = (e2, p2, h2)" by (cases x)
      have c2: "consumes p1 p2" using atom_pos Inr x by simp
      then have le2: "pos p2 \<le> length (inp p2)" by (simp add: consumes_def)
      obtain r2 p3 where pk2: "peek p2 = (r2, p3)" by (cases "peek p2")
      have a3: "advances p2 p3" by (rule peek_advances(1)[OF pk2 le2])
      then have le3: "pos p3 \<le> length (inp p3)" by (simp add: advances_def)
      have c3: "consumes p p3"
        by (rule advances_consumes[OF a1 consumes_advances[OF c2 a3]])
      have m: "consumes p p'" if "parseMeta p3 h2 e2 = Inr (e', p', h')" for e' p' h'
        using consumes_advances[OF c3 parseMeta_advances[OF that le3]] .
      show ?thesis
        using eq Inr x pk2 c3 m parseMeta_fuel[of p3 h2 e2] by auto
    qed
  qed
qed

lemma subexp_step:
  assumes c: "clause_ok n"
  shows "subexp_ok (Suc n)"
  unfolding subexp_ok_def
proof (intro allI impI)
  fix p :: parser and h :: heap
  assume lt: "pos p < length (inp p)"
  obtain r0 p1 where nx: "parser_next p = (r0, p1)" by (cases "parser_next p")
  have c1: "consumes p p1" using next_advances(2)[OF nx] lt by simp
  then have le1: "pos p1 \<le> length (inp p1)" and i1: "inp p1 = inp p" and lt1: "pos p < pos p1"
    by (simp_all add: consumes_def)
  let ?rest = "\<lambda>e p2 h2.
         (let (r, p3) = parser_next p2;
              (lp, h3) = new_node h2 LeftParenNode;
              (rp, h4) = new_node h3 RightParenNode
          in case concat_expr h4 \<lparr>start = Some lp, fin = Some lp\<rparr> e of
               Inl f \<Rightarrow> Inl f
             | Inr (e1, h5) \<Rightarrow>
                 (case concatNode h5 e1 (Some rp) of
                    Inl f \<Rightarrow> Inl f
                  | Inr (e2, h6) \<Rightarrow>
                      if r \<noteq> RPAREN then Inl (Err (UnterminatedSubexp (pos p)))
                      else Inr (e2, p3, h6)))"
  have eq: "parseSubexp (Suc n) p h =
      (case parseClause n p1 h no_expr of Inl f \<Rightarrow> Inl f
       | Inr (e, p2, h2) \<Rightarrow> ?rest e p2 h2)"
    using nx by (simp add: parseSubexp.simps)
  have rest_fuel: "?rest e p2 h2 \<noteq> Inl OutOfFuel" for e p2 h2
    using concat_expr_fuel concatNode_fuel
    by (auto simp: new_node_def split: sum.splits prod.splits)
  have rest_pos: "p' = snd (parser_next p2)" if "?rest e p2 h2 = Inr (e', p', h')"
    for e p2 h2 e' p' h'
    using that by (auto simp: new_node_def split: sum.splits prod.splits if_splits)
  show "(3 * (length (inp p) - pos p) \<le> Suc (Suc n) \<longrightarrow> parseSubexp (Suc n) p h \<noteq> Inl OutOfFuel)
     \<and> (\<forall>e' p' h'. parseSubexp (Suc n) p h = Inr (e', p', h') \<longrightarrow> consumes p p')"
  proof (cases "parseClause n p1 h no_expr")
    case (Inl f)
    have "3 * (length (inp p) - pos p) \<le> Suc (Suc n) \<Longrightarrow> f \<noteq> OutOfFuel"
      using clause_okD(1)[OF c le1, of h no_expr] Inl i1 lt1 le1 by auto
    then show ?thesis using eq Inl by simp
  next
    case (Inr x)
    obtain e2 p2 h2 where x: "x = (e2, p2, h2)" by (cases x)
    have a2: "advances p1 p2" using clause_okD(2)[OF c le1] Inr x by simp
    then have le2: "pos p2 \<le> length (inp p2)" by (simp add: advances_def)
    obtain r p3 where nx2: "parser_next p2 = (r, p3)" by (cases "parser_next p2")
    have a3: "advances p2 p3" by (rule next_advances(1)[OF nx2 le2])
    have c3: "consumes p p3"
      by (rule consumes_advances[OF consumes_advances[OF c1 a2] a3])
    define R where "R = ?rest e2 p2 h2"
    have eq2: "parseSubexp (Suc n) p h = R"
      using eq Inr x by (simp add: R_def)
    have r1: "R \<noteq> Inl OutOfFuel"
      unfolding R_def by (rule rest_fuel)
    have r2: "p' = p3" if "R = Inr (e', p', h')" for e' p' h'
      using rest_pos[OF that[unfolded R_def]] nx2 by simp
    show ?thesis
      unfolding eq2 using r1 r2 c3 by auto
  qed
qed

lemma parser_ok: "clause_ok n \<and> pipe_ok n \<and> term_ok n \<and> subexp_ok n"
proof (induction n)
  case 0
  show ?case
    by (auto simp: clause_ok_def pipe_ok_def term_ok_def subexp_ok_def
        parseClause.simps parsePipe.simps parseTerm.simps parseSubexp.simps)
next
  case (Suc n)
  then show ?case
    using clause_step pipe_step term_step subexp_step by blast
qed

text \<open>
  \<^verbatim>\<open>Compile\<close> never runs out of fuel: it returns a compiled pattern or an error, or it
  panics, as the program does.
\<close>

theorem Compile_total: "Compile p \<noteq> Inl OutOfFuel"
proof -
  let ?p0 = "\<lparr>inp = p, pos = 0, width = 0\<rparr>"
  have c: "clause_ok (fuel_of p)" using parser_ok by blast
  have "parseClause (fuel_of p) ?p0 [] no_expr \<noteq> Inl OutOfFuel"
    by (rule clause_okD(1)[OF c]) (simp_all add: fuel_of_def)
  then show ?thesis
    using concatNode_fuel
    by (auto simp: Compile_def parse_def Let_def new_node_def split: sum.splits prod.splits)
qed

section \<open>Alternation\<close>

lemma compile_a_or_b:
  "Compile ''a|b'' =
    Inr \<lparr>rstart = Some 1, rterm = Some 3, pattern = ''a|b'',
         nodes = [\<lparr>kind = LiteralNode 97, epsilons = [], nxt = Some 2\<rparr>,
                  \<lparr>kind = LiteralNode 98, epsilons = [Some 0], nxt = Some 2\<rparr>,
                  \<lparr>kind = PipeNode, epsilons = [Some 3], nxt = None\<rparr>,
                  \<lparr>kind = TerminalNode, epsilons = [], nxt = None\<rparr>]\<rparr>"
  by (simp add: run_parser)

text \<open>
  Claim C3. The pattern \<^verbatim>\<open>a|b\<close> compiles, and the compiled pattern accepts the input
  \<^verbatim>\<open>a\<close> and the input \<^verbatim>\<open>b\<close> and rejects the input \<^verbatim>\<open>ab\<close>, whatever the order in which
  the live set is ranged over.
\<close>

theorem alternation_a_or_b:
  assumes "enumerates ord"
  shows "\<exists>re. Compile ''a|b'' = Inr re \<and> MatchString ord re ''a'' = Inr True
    \<and> MatchString ord re ''b'' = Inr True \<and> MatchString ord re ''ab'' = Inr False"
proof -
  let ?h = "[\<lparr>kind = LiteralNode 97, epsilons = [], nxt = Some 2\<rparr>,
             \<lparr>kind = LiteralNode 98, epsilons = [Some 0], nxt = Some 2\<rparr>,
             \<lparr>kind = PipeNode, epsilons = [Some 3], nxt = None\<rparr>,
             \<lparr>kind = TerminalNode, epsilons = [], nxt = None\<rparr>]"
  have sa: "step_nodes ?h 97 (ord {0, 1}) {} = Inr {3, 2}"
    using step_ord_one[OF assms, of "{0, 1}" 0 ?h 97 "{}"]
    by (auto simp: active_def add_def)
  have sb: "step_nodes ?h 98 (ord {0, 1}) {} = Inr {3, 2}"
    using step_ord_one[OF assms, of "{0, 1}" 1 ?h 98 "{}"]
    by (auto simp: active_def add_def)
  have sn: "step_nodes ?h 98 (ord {3, 2}) {} = Inr {}"
    using step_ord_none[OF assms, of "{3, 2}" ?h 98 "{}"]
    by (auto simp: active_def)
  show ?thesis
    using sa sb sn
    by (auto simp: compile_a_or_b MatchString_def add_def runes_Nil runes_Cons)
qed

theorem alternation_a_or_b_witness:
  "enumerates sorted_list_of_set
    \<and> (\<exists>re. Compile ''a|b'' = Inr re \<and> MatchString sorted_list_of_set re ''a'' = Inr True
      \<and> MatchString sorted_list_of_set re ''b'' = Inr True
      \<and> MatchString sorted_list_of_set re ''ab'' = Inr False)"
  using alternation_a_or_b[of sorted_list_of_set] by (simp add: enumerates_def)

section \<open>The empty pattern\<close>

lemma compile_empty:
  "Compile [] =
    Inr \<lparr>rstart = Some 0, rterm = Some 0, pattern = [],
         nodes = [\<lparr>kind = TerminalNode, epsilons = [], nxt = None\<rparr>]\<rparr>"
  by (simp add: run_parser)

text \<open>
  Claim C4. The empty pattern compiles; the compiled pattern accepts the empty input and
  rejects every input that is not empty; and adding the entry node to the empty set gives
  exactly the set of the Terminal node.
\<close>

theorem empty_pattern:
  assumes "enumerates ord"
  shows "\<exists>re t. Compile [] = Inr re \<and> MatchString ord re [] = Inr True
    \<and> (\<forall>s. s \<noteq> [] \<longrightarrow> MatchString ord re s = Inr False)
    \<and> rterm re = Some t \<and> kind (nodes re ! t) = TerminalNode
    \<and> add (nodes re) {} (rstart re) = Inr {t}"
proof -
  let ?h = "[\<lparr>kind = TerminalNode, epsilons = [], nxt = None\<rparr>]"
  let ?re = "\<lparr>rstart = Some 0, rterm = Some 0, pattern = [], nodes = ?h\<rparr>"
  have cl: "add ?h {} (Some 0) = Inr {0}"
    by (simp add: add_def)
  have st: "step_nodes ?h r (ord {0}) {} = Inr {}" for r
    using step_ord_none[OF assms, of "{0}" ?h r "{}"]
    by (auto simp: active_def)
  have rej: "MatchString ord ?re s = Inr False" if "s \<noteq> []" for s
  proof -
    from that obtain r rs where "runes s = r # rs"
      using runes_nonempty by blast
    then show ?thesis
      by (simp add: MatchString_def cl st)
  qed
  have acc: "MatchString ord ?re [] = Inr True"
    by (simp add: MatchString_def cl runes_Nil)
  show ?thesis
    using rej acc cl by (simp add: compile_empty)
qed

theorem empty_pattern_witness:
  "enumerates sorted_list_of_set
    \<and> (\<exists>re t. Compile [] = Inr re \<and> MatchString sorted_list_of_set re [] = Inr True
      \<and> MatchString sorted_list_of_set re ''a'' = Inr False
      \<and> rterm re = Some t \<and> kind (nodes re ! t) = TerminalNode
      \<and> add (nodes re) {} (rstart re) = Inr {t})"
proof -
  have e: "enumerates sorted_list_of_set" by (simp add: enumerates_def)
  from empty_pattern[OF e] obtain re t where
    "Compile [] = Inr re" "MatchString sorted_list_of_set re [] = Inr True"
    "\<forall>s. s \<noteq> [] \<longrightarrow> MatchString sorted_list_of_set re s = Inr False"
    "rterm re = Some t" "kind (nodes re ! t) = TerminalNode"
    "add (nodes re) {} (rstart re) = Inr {t}"
    by blast
  moreover from this have "MatchString sorted_list_of_set re ''a'' = Inr False"
    by simp
  ultimately show ?thesis using e by blast
qed

section \<open>Malformed patterns\<close>

text \<open>
  The malformed patterns of the tests give an error: an unmatched parenthesis, a leading
  quantifier, an empty left operand of \<^verbatim>\<open>|\<close>, an unknown escape.
\<close>

lemma malformed_examples:
  "Compile '')'' = Inl (Err (IllegalAt 41 0))"
  "Compile ''as)'' = Inl (Err (IllegalAt 41 2))"
  "Compile ''(as'' = Inl (Err (UnterminatedSubexp 0))"
  "Compile ''*.*'' = Inl (Err (InvalidCharacter 42 0))"
  "Compile ''+.*'' = Inl (Err (InvalidCharacter 43 0))"
  "Compile ''?'' = Inl (Err (InvalidCharacter 63 0))"
  "Compile ''|'' = Inl (Err (EmptyLeftOperand 65533 1))"
  "Compile ''|a'' = Inl (Err (EmptyLeftOperand 97 1))"
  "Compile ''()||'' = Inl (Err (EmptyLeftOperand 65533 4))"
  "Compile [CHR 0x5C, CHR ''y''] = Inl (Err (UnknownEscape 121))"
  by (simp_all add: run_parser)

lemma MustCompile_panics: "Compile pat = Inl (Err e) \<Longrightarrow> MustCompile pat = Inl (Panic (Raised e))"
  by (simp add: MustCompile_def)

text \<open>
  Claim C6 says that every malformed pattern, an empty operand of an alternation among
  them, makes \<^verbatim>\<open>Compile\<close> return an error without a panic. The pattern \<^verbatim>\<open>a|\<close> has an empty
  right operand: \<^verbatim>\<open>parsePipe\<close> checks the left operand only, the clause parsed on the right
  is the empty fragment, and \<^verbatim>\<open>e.start.addEpsilon\<close> is a call on nil. \<^verbatim>\<open>Compile\<close> panics.
\<close>

theorem compile_empty_right_operand_panics:
  "Compile ''a|'' = Inl (Panic NilDereference)"
  by (simp add: run_parser)

section \<open>The sentinel of the scanner\<close>

lemma clean_le: "clean p p' \<Longrightarrow> pos p' \<le> length (inp p')"
  by (simp add: clean_def advances_def)

lemma clean_trans:
  assumes "clean p p1" "clean p1 p2"
  shows "clean p p2"
proof -
  from assms have i: "inp p1 = inp p" by (simp add: clean_def advances_def)
  from assms(1) obtain rs where rs: "RuneError \<notin> set rs"
    "runes (drop (pos p) (inp p)) = rs @ runes (drop (pos p1) (inp p))"
    by (auto simp: clean_def)
  from assms(2) i obtain rs' where rs': "RuneError \<notin> set rs'"
    "runes (drop (pos p1) (inp p)) = rs' @ runes (drop (pos p2) (inp p))"
    by (auto simp: clean_def)
  have "RuneError \<notin> set (rs @ rs')" using rs(1) rs'(1) by simp
  moreover have "runes (drop (pos p) (inp p)) = (rs @ rs') @ runes (drop (pos p2) (inp p))"
    using rs(2) rs'(2) by simp
  moreover have "advances p p2"
    using assms advances_trans by (auto simp: clean_def)
  ultimately show ?thesis unfolding clean_def by blast
qed

lemma peek_cur:
  assumes "peek p = (r, p1)"
  shows "r = cur p" "cur p1 = cur p"
  using assms
  by (auto simp: peek_def parser_next_def backup_def cur_def split: prod.splits)

lemma peek_clean:
  assumes "peek p = (r, p1)" "pos p \<le> length (inp p)"
  shows "clean p p1"
proof -
  have "advances p p1" by (rule peek_advances(1)[OF assms])
  moreover have "runes (drop (pos p) (inp p)) = [] @ runes (drop (pos p1) (inp p))"
    using peek_same(2)[OF assms(1)] by simp
  ultimately show ?thesis unfolding clean_def by (metis empty_iff empty_set)
qed

lemma next_clean:
  assumes n: "parser_next p = (r, p1)" and le: "pos p \<le> length (inp p)"
    and r: "cur p \<noteq> RuneError"
  shows "clean p p1" "r = cur p"
proof -
  let ?t = "drop (pos p) (inp p)"
  let ?w = "snd (DecodeRuneInString ?t)"
  from n have p1: "p1 = p\<lparr>pos := pos p + ?w, width := ?w\<rparr>" and rr: "r = cur p"
    by (auto simp: parser_next_def cur_def split: prod.splits)
  show "r = cur p" by (rule rr)
  have tne: "?t \<noteq> []" using r by (auto simp: cur_def)
  have "runes ?t = cur p # runes (drop ?w ?t)"
    using tne by (subst runes.simps) (simp add: cur_def)
  then have "runes ?t = [cur p] @ runes (drop (pos p1) (inp p))"
    by (simp add: p1 add.commute)
  moreover have "RuneError \<notin> set [cur p]" using r by simp
  moreover have "advances p p1" by (rule next_advances(1)[OF n le])
  ultimately show "clean p p1" unfolding clean_def by blast
qed

lemma parseLiteral_clean:
  assumes "parseLiteral p h = Inr (e, p', h')" "pos p \<le> length (inp p)" "cur p \<noteq> RuneError"
  shows "clean p p'"
proof -
  obtain r p1 where n: "parser_next p = (r, p1)" by (cases "parser_next p")
  with assms(1) have "p' = p1" by (simp add: parseLiteral_def new_node_def)
  with next_clean(1)[OF n assms(2,3)] show ?thesis by simp
qed

lemma parseDot_clean:
  assumes "parseDot p h = Inr (e, p', h')" "pos p \<le> length (inp p)" "cur p \<noteq> RuneError"
  shows "clean p p'"
proof -
  obtain r p1 where n: "parser_next p = (r, p1)" by (cases "parser_next p")
  with assms(1) have "p' = p1" by (simp add: parseDot_def new_node_def)
  with next_clean(1)[OF n assms(2,3)] show ?thesis by simp
qed

lemma parseEscape_clean:
  assumes "parseEscape p h = Inr (e, p', h')" "pos p \<le> length (inp p)" "cur p \<noteq> RuneError"
  shows "clean p p'"
proof -
  obtain r0 p1 where n: "parser_next p = (r0, p1)" by (cases "parser_next p")
  obtain r p2 where k: "peek p1 = (r, p2)" by (cases "peek p1")
  have c1: "clean p p1" by (rule next_clean(1)[OF n assms(2,3)])
  have le1: "pos p1 \<le> length (inp p1)" by (rule clean_le[OF c1])
  have c2: "clean p1 p2" by (rule peek_clean[OF k le1])
  have le2: "pos p2 \<le> length (inp p2)" by (rule clean_le[OF c2])
  from assms(1) n k have lit: "parseLiteral p2 h = Inr (e, p', h')" and r: "r \<noteq> RuneError"
    by (auto simp: parseEscape_def split: if_splits)
  have "cur p2 \<noteq> RuneError" using peek_cur[OF k] r by simp
  from parseLiteral_clean[OF lit le2 this] have "clean p2 p'" .
  with c1 c2 show ?thesis by (meson clean_trans)
qed

lemma parseMeta_clean:
  assumes "parseMeta p h t = Inr (e, p', h')" "pos p \<le> length (inp p)" "cur p \<noteq> RuneError"
  shows "clean p p'"
proof -
  obtain mc p1 where n: "parser_next p = (mc, p1)" by (cases "parser_next p")
  with assms(1) have "p' = p1"
    by (auto simp: parseMeta_def Let_def split: sum.splits prod.splits if_splits)
  with next_clean(1)[OF n assms(2,3)] show ?thesis by simp
qed


lemma clause_clean_step:
  assumes c: "clause_clean n" and pi: "pipe_clean n" and t: "term_clean n"
  shows "clause_clean (Suc n)"
  unfolding clause_clean_def
proof (intro allI impI)
  fix p :: parser and h :: heap and e e' :: expr and p' :: parser and h' :: heap
  assume le: "pos p \<le> length (inp p)"
    and run: "parseClause (Suc n) p h e = Inr (e', p', h')"
  obtain r p1 where pk: "peek p = (r, p1)" by (cases "peek p")
  have c1: "clean p p1" by (rule peek_clean[OF pk le])
  have le1: "pos p1 \<le> length (inp p1)" by (rule clean_le[OF c1])
  have cu: "cur p1 = r" using peek_cur[OF pk] by simp
  consider (stop) "r = RuneError \<or> r = RPAREN"
    | (pipe) "r \<noteq> RuneError" "r \<noteq> RPAREN" "r = PIPE"
    | (trm) "r \<noteq> RuneError" "r \<noteq> RPAREN" "r \<noteq> PIPE"
    by blast
  then show "clean p p'"
  proof cases
    case stop
    then have "p' = p1" using run pk by (auto simp: parseClause.simps)
    with c1 show ?thesis by simp
  next
    case pipe
    from run pk pipe obtain e2 p2 h2 where
      r1: "parsePipe n p1 h e = Inr (e2, p2, h2)" and r2: "parseClause n p2 h2 e2 = Inr (e', p', h')"
      by (auto simp: parseClause.simps split: sum.splits)
    have c2: "clean p1 p2"
      using pi le1 cu pipe(1) r1 unfolding pipe_clean_def by blast
    have c3: "clean p2 p'"
      using c clean_le[OF c2] r2 unfolding clause_clean_def by blast
    show ?thesis by (rule clean_trans[OF c1 clean_trans[OF c2 c3]])
  next
    case trm
    from run pk trm obtain nx p2 h2 e3 h3 where
      r1: "parseTerm n p1 h = Inr (nx, p2, h2)" and r2: "parseClause n p2 h3 e3 = Inr (e', p', h')"
      by (auto simp: parseClause.simps split: sum.splits)
    have c2: "clean p1 p2"
      using t le1 cu trm(1) r1 unfolding term_clean_def by blast
    have c3: "clean p2 p'"
      using c clean_le[OF c2] r2 unfolding clause_clean_def by blast
    show ?thesis by (rule clean_trans[OF c1 clean_trans[OF c2 c3]])
  qed
qed

lemma pipe_clean_step:
  assumes c: "clause_clean n"
  shows "pipe_clean (Suc n)"
  unfolding pipe_clean_def
proof (intro allI impI)
  fix p :: parser and h :: heap and lhs e' :: expr and p' :: parser and h' :: heap
  assume le: "pos p \<le> length (inp p)" and cu: "cur p \<noteq> RuneError"
    and run: "parsePipe (Suc n) p h lhs = Inr (e', p', h')"
  obtain r0 p1 where nx: "parser_next p = (r0, p1)" by (cases "parser_next p")
  have c1: "clean p p1" by (rule next_clean(1)[OF nx le cu])
  from run nx obtain e2 h2 where r1: "parseClause n p1 h no_expr = Inr (e2, p', h2)"
    by (auto simp: parsePipe.simps new_node_def split: if_splits sum.splits prod.splits)
  have "clean p1 p'"
    using c clean_le[OF c1] r1 unfolding clause_clean_def by blast
  with c1 show "clean p p'" by (rule clean_trans)
qed

lemma term_clean_step:
  assumes sb: "subexp_clean n"
  shows "term_clean (Suc n)"
  unfolding term_clean_def
proof (intro allI impI)
  fix p :: parser and h :: heap and e' :: expr and p' :: parser and h' :: heap
  assume le: "pos p \<le> length (inp p)" and cu: "cur p \<noteq> RuneError"
    and run: "parseTerm (Suc n) p h = Inr (e', p', h')"
  obtain r p1 where pk: "peek p = (r, p1)" by (cases "peek p")
  have c1: "clean p p1" by (rule peek_clean[OF pk le])
  have le1: "pos p1 \<le> length (inp p1)" by (rule clean_le[OF c1])
  have cu1: "cur p1 \<noteq> RuneError" using peek_cur[OF pk] cu by simp
  let ?atom = "if r = LPAREN then parseSubexp n p1 h
            else if r = BACKSLASH then parseEscape p1 h
            else if r = DOT then parseDot p1 h
            else parseLiteral p1 h"
  from run pk obtain e2 p2 h2 where at: "?atom = Inr (e2, p2, h2)"
    and rest: "(let (r2, p3) = peek p2 in
              if r2 = QMARK \<or> r2 = PLUS \<or> r2 = STAR then parseMeta p3 h2 e2
              else Inr (e2, p3, h2)) = Inr (e', p', h')"
    by (auto simp: parseTerm.simps split: if_splits sum.splits)
  have c2: "clean p1 p2"
  proof -
    have "parseSubexp n p1 h = Inr (e2, p2, h2) \<Longrightarrow> clean p1 p2"
      using sb le1 cu1 unfolding subexp_clean_def by blast
    then show ?thesis
      using at parseEscape_clean[OF _ le1 cu1] parseDot_clean[OF _ le1 cu1]
        parseLiteral_clean[OF _ le1 cu1]
      by (auto split: if_splits)
  qed
  have le2: "pos p2 \<le> length (inp p2)" by (rule clean_le[OF c2])
  obtain r2 p3 where pk2: "peek p2 = (r2, p3)" by (cases "peek p2")
  have c3: "clean p2 p3" by (rule peek_clean[OF pk2 le2])
  have le3: "pos p3 \<le> length (inp p3)" by (rule clean_le[OF c3])
  have "clean p3 p'"
  proof (cases "r2 = QMARK \<or> r2 = PLUS \<or> r2 = STAR")
    case True
    then have m: "parseMeta p3 h2 e2 = Inr (e', p', h')" using rest pk2 by simp
    have "cur p3 \<noteq> RuneError" using peek_cur[OF pk2] True by auto
    from parseMeta_clean[OF m le3 this] show ?thesis .
  next
    case False
    then have "p' = p3" using rest pk2 by simp
    moreover obtain r3 p4 where "peek p3 = (r3, p4)" by (cases "peek p3")
    ultimately show ?thesis
      using le3 by (auto simp: clean_def advances_def intro: exI[of _ "[]"])
  qed
  with c1 c2 c3 show "clean p p'" by (meson clean_trans)
qed

lemma subexp_clean_step:
  assumes c: "clause_clean n"
  shows "subexp_clean (Suc n)"
  unfolding subexp_clean_def
proof (intro allI impI)
  fix p :: parser and h :: heap and e' :: expr and p' :: parser and h' :: heap
  assume le: "pos p \<le> length (inp p)" and cu: "cur p \<noteq> RuneError"
    and run: "parseSubexp (Suc n) p h = Inr (e', p', h')"
  obtain r0 p1 where nx: "parser_next p = (r0, p1)" by (cases "parser_next p")
  have c1: "clean p p1" by (rule next_clean(1)[OF nx le cu])
  from run nx obtain e2 p2 h2 where r1: "parseClause n p1 h no_expr = Inr (e2, p2, h2)"
    and rest: "(let (r, p3) = parser_next p2;
              (lp, h3) = new_node h2 LeftParenNode;
              (rp, h4) = new_node h3 RightParenNode
          in case concat_expr h4 \<lparr>start = Some lp, fin = Some lp\<rparr> e2 of
               Inl f \<Rightarrow> Inl f
             | Inr (e1, h5) \<Rightarrow>
                 (case concatNode h5 e1 (Some rp) of
                    Inl f \<Rightarrow> Inl f
                  | Inr (e2, h6) \<Rightarrow>
                      if r \<noteq> RPAREN then Inl (Err (UnterminatedSubexp (pos p)))
                      else Inr (e2, p3, h6))) = Inr (e', p', h')"
    by (auto simp: parseSubexp.simps split: sum.splits)
  have c2: "clean p1 p2"
    using c clean_le[OF c1] r1 unfolding clause_clean_def by blast
  have le2: "pos p2 \<le> length (inp p2)" by (rule clean_le[OF c2])
  obtain r p3 where nx2: "parser_next p2 = (r, p3)" by (cases "parser_next p2")
  from rest nx2 have r: "r = RPAREN" and p': "p' = p3"
    by (auto simp: new_node_def split: sum.splits if_splits)
  have "fst (parser_next p2) = cur p2"
    by (simp add: parser_next_def cur_def split: prod.splits)
  with nx2 r have "cur p2 \<noteq> RuneError" by simp
  from next_clean(1)[OF nx2 le2 this] p' have "clean p2 p'" by simp
  with c1 c2 show "clean p p'" by (meson clean_trans)
qed

lemma parser_clean: "clause_clean n \<and> pipe_clean n \<and> term_clean n \<and> subexp_clean n"
proof (induction n)
  case 0
  show ?case
    by (simp add: clause_clean_def pipe_clean_def term_clean_def subexp_clean_def
        parseClause.simps parsePipe.simps parseTerm.simps parseSubexp.simps)
next
  case (Suc n)
  then show ?case
    using clause_clean_step pipe_clean_step term_clean_step subexp_clean_step by blast
qed

text \<open>
  A pattern that \<^verbatim>\<open>Compile\<close> compiles holds neither the code point U+FFFD nor a byte
  sequence that is not valid UTF-8: the scanner never reads past its sentinel.
\<close>

theorem compiled_pattern_has_no_sentinel:
  assumes "Compile p = Inr re"
  shows "RuneError \<notin> set (runes p)"
proof -
  let ?p0 = "\<lparr>inp = p, pos = 0, width = 0\<rparr>"
  from assms obtain e p1 h where pc: "parseClause (fuel_of p) ?p0 [] no_expr = Inr (e, p1, h)"
    by (auto simp: Compile_def parse_def split: sum.splits)
  from assms pc have len: "pos p1 = length p"
    by (auto simp: Compile_def parse_def Let_def split: sum.splits if_splits prod.splits)
  have cc: "clause_clean (fuel_of p)" using parser_clean by blast
  have le0: "pos ?p0 \<le> length (inp ?p0)" by simp
  have "clean ?p0 p1"
    using cc le0 pc unfolding clause_clean_def by blast
  then obtain rs where "RuneError \<notin> set rs" "runes p = rs @ runes (drop (pos p1) p)"
    by (auto simp: clean_def)
  then show ?thesis using len by (simp add: runes_Nil)
qed

text \<open>
  Claim C10 says that a pattern that contains the code point U+FFFD makes \<^verbatim>\<open>Compile\<close>
  return an error. In \<^verbatim>\<open>a|\<close> followed by U+FFFD (the bytes EF BF BD) the scanner stops at the
  sentinel, the right operand of \<^verbatim>\<open>|\<close> is empty, and \<^verbatim>\<open>Compile\<close> panics as for \<^verbatim>\<open>a|\<close>.
\<close>

theorem compile_sentinel_after_pipe_panics:
  "Compile [CHR ''a'', CHR ''|'', CHR 0xEF, CHR 0xBF, CHR 0xBD] = Inl (Panic NilDereference)"
  by (simp add: run_parser)

section \<open>Wiring of an alternation\<close>

lemma addEpsilon_Inr:
  "addEpsilon h n e = Inr h' \<Longrightarrow>
    \<exists>a. n = Some a \<and> a < length h \<and> h' = h[a := (h ! a)\<lparr>epsilons := epsilons (h ! a) @ [e]\<rparr>]"
  by (cases n) (auto split: if_splits)

lemma concat_expr_Inr:
  assumes "concat_expr h e nx = Inr (e', h')" "\<not> isEmpty e" "\<not> isEmpty nx"
  shows "\<exists>a. fin e = Some a \<and> a < length h \<and> e' = e\<lparr>fin := fin nx\<rparr> \<and>
    h' = (if isMatchNode (kind (h ! a)) then h[a := (h ! a)\<lparr>nxt := start nx\<rparr>]
          else h[a := (h ! a)\<lparr>epsilons := epsilons (h ! a) @ [start nx]\<rparr>])"
  using assms
  by (cases "fin e") (auto simp: concat_expr_def split: if_splits sum.splits)

lemma concat_expr_wired:
  assumes "concat_expr h e nx = Inr (e', h')" "\<not> isEmpty e" "\<not> isEmpty nx"
  shows "\<exists>a. fin e = Some a \<and> a < length h \<and> e' = e\<lparr>fin := fin nx\<rparr> \<and> length h' = length h
    \<and> wired h' a (start nx)
    \<and> (\<forall>b. kind (h' ! b) = kind (h ! b))
    \<and> (\<forall>b. set (epsilons (h ! b)) \<subseteq> set (epsilons (h' ! b)))
    \<and> (\<forall>b. b \<noteq> a \<longrightarrow> h' ! b = h ! b)"
proof -
  from concat_expr_Inr[OF assms] obtain a where a: "fin e = Some a" "a < length h"
    "e' = e\<lparr>fin := fin nx\<rparr>"
    "h' = (if isMatchNode (kind (h ! a)) then h[a := (h ! a)\<lparr>nxt := start nx\<rparr>]
          else h[a := (h ! a)\<lparr>epsilons := epsilons (h ! a) @ [start nx]\<rparr>])"
    by blast
  have "wired h' a (start nx)" using a by (simp add: wired_def)
  moreover have "\<forall>b. kind (h' ! b) = kind (h ! b)"
    using a by (auto simp: nth_list_update)
  moreover have "\<forall>b. set (epsilons (h ! b)) \<subseteq> set (epsilons (h' ! b))"
    using a by (auto simp: nth_list_update)
  moreover have "\<forall>b. b \<noteq> a \<longrightarrow> h' ! b = h ! b"
    using a by auto
  moreover have "length h' = length h" using a by simp
  ultimately show ?thesis using a by blast
qed

text \<open>
  Claim C5, as amended. Every call of \<^verbatim>\<open>parsePipe\<close> that returns a fragment has parsed a
  right clause \<open>rhs\<close>; the exit of the left fragment and the exit of the right clause are
  both wired to one new Pipe node, which is the exit of the result; the entry of the
  right clause has an epsilon edge to the entry of the left fragment, and the entry of
  the right clause is the entry of the result, so that both branches are reachable from
  it. (The claim has the edge in the other direction, from the left entry to the right
  entry.)
\<close>

theorem pipe_wiring:
  assumes "parsePipe n p h lhs = Inr (e, p', h')"
  shows "\<exists>m rhs h2 r le re.
      n = Suc m \<and> parseClause m (snd (parser_next p)) h no_expr = Inr (rhs, p', h2)
    \<and> start rhs = Some r \<and> fin lhs = Some le \<and> fin rhs = Some re
    \<and> length h' = Suc (length h2) \<and> kind (h' ! length h2) = PipeNode
    \<and> e = \<lparr>start = Some r, fin = Some (length h2)\<rparr>
    \<and> start lhs \<in> set (epsilons (h' ! r))
    \<and> wired h' le (Some (length h2)) \<and> wired h' re (Some (length h2))"
proof -
  from assms obtain m where n: "n = Suc m" by (cases n) (auto simp: parsePipe.simps)
  obtain r0 p1 where p1: "parser_next p = (r0, p1)" by (cases "parser_next p")
  from assms n p1 have ne: "\<not> isEmpty lhs"
    by (auto simp: parsePipe.simps Let_def split: prod.splits)
  from assms n p1 ne obtain rhs h2 where rhs: "parseClause m p1 h no_expr = Inr (rhs, p', h2)"
    and rest: "(case addEpsilon h2 (start rhs) (start lhs) of
               Inl f \<Rightarrow> Inl f
             | Inr h3 \<Rightarrow>
                 (let (n, h4) = new_node h3 PipeNode in
                  case concatNode h4 rhs (Some n) of
                    Inl f \<Rightarrow> Inl f
                  | Inr (e', h5) \<Rightarrow>
                      (case concatNode h5 lhs (Some n) of
                         Inl f \<Rightarrow> Inl f
                       | Inr (lhs', h6) \<Rightarrow> Inr (e', p', h6)))) = Inr (e, p', h')"
    by (auto simp: parsePipe.simps Let_def split: sum.splits prod.splits)
  from rest obtain h3 where h3: "addEpsilon h2 (start rhs) (start lhs) = Inr h3"
    by (auto split: sum.splits)
  from addEpsilon_Inr[OF h3] obtain r where r: "start rhs = Some r" "r < length h2"
    "h3 = h2[r := (h2 ! r)\<lparr>epsilons := epsilons (h2 ! r) @ [start lhs]\<rparr>]" by blast
  let ?pn = "length h2"
  let ?h4 = "h3 @ [\<lparr>kind = PipeNode, epsilons = [], nxt = None\<rparr>]"
  have len3: "length h3 = length h2" using r by simp
  from rest h3 len3 obtain e5 h5 where c5: "concat_expr ?h4 rhs \<lparr>start = Some ?pn, fin = Some ?pn\<rparr> = Inr (e5, h5)"
    and rest2: "(case concatNode h5 lhs (Some ?pn) of
                         Inl f \<Rightarrow> Inl f
                       | Inr (lhs', h6) \<Rightarrow> Inr (e5, p', h6)) = Inr (e, p', h')"
    by (auto simp: new_node_def concatNode_def split: sum.splits)
  from rest2 obtain l6 where c6: "concat_expr h5 lhs \<lparr>start = Some ?pn, fin = Some ?pn\<rparr> = Inr (l6, h')"
    and e: "e = e5"
    by (auto simp: concatNode_def split: sum.splits)
  have rne: "\<not> isEmpty rhs" using r by (auto simp: isEmpty_def no_expr_def)
  have pne: "\<not> isEmpty \<lparr>start = Some ?pn, fin = Some ?pn\<rparr>" by (simp add: isEmpty_def no_expr_def)
  from concat_expr_wired[OF c5 rne pne] obtain re where re: "fin rhs = Some re" "re < length ?h4"
    "e5 = rhs\<lparr>fin := Some ?pn\<rparr>" "length h5 = length ?h4" "wired h5 re (Some ?pn)"
    "\<forall>b. kind (h5 ! b) = kind (?h4 ! b)"
    "\<forall>b. set (epsilons (?h4 ! b)) \<subseteq> set (epsilons (h5 ! b))"
    "\<forall>b. b \<noteq> re \<longrightarrow> h5 ! b = ?h4 ! b"
    by auto
  from concat_expr_wired[OF c6 ne pne] obtain le where le: "fin lhs = Some le" "le < length h5"
    "length h' = length h5" "wired h' le (Some ?pn)"
    "\<forall>b. kind (h' ! b) = kind (h5 ! b)"
    "\<forall>b. set (epsilons (h5 ! b)) \<subseteq> set (epsilons (h' ! b))"
    "\<forall>b. b \<noteq> le \<longrightarrow> h' ! b = h5 ! b"
    by auto
  have k: "kind (h' ! ?pn) = PipeNode"
    using le(5) re(6) len3 by (simp add: nth_append)
  have len: "length h' = Suc (length h2)"
    using le(3) re(4) len3 by simp
  have "start lhs \<in> set (epsilons (?h4 ! r))"
    using r len3 by (simp add: nth_append)
  with re(7) le(6) have edge: "start lhs \<in> set (epsilons (h' ! r))"
    by blast
  have wre: "wired h' re (Some ?pn)"
  proof (cases "re = le")
    case True
    with le(4) show ?thesis by simp
  next
    case False
    with le(7) have "h' ! re = h5 ! re" by simp
    with re(5) show ?thesis by (simp add: wired_def)
  qed
  have ee: "e = \<lparr>start = Some r, fin = Some ?pn\<rparr>"
    using e re(3) r(1) by (cases rhs) simp
  show ?thesis
    using n p1 rhs r(1) le(1) re(1) len k ee edge le(4) wre by simp
qed

theorem pipe_wiring_witness:
  "parsePipe 9 \<lparr>inp = ''a|b'', pos = 1, width = 0\<rparr>
      [\<lparr>kind = LiteralNode 97, epsilons = [], nxt = None\<rparr>] \<lparr>start = Some 0, fin = Some 0\<rparr>
    = Inr (\<lparr>start = Some 1, fin = Some 2\<rparr>, \<lparr>inp = ''a|b'', pos = 3, width = 0\<rparr>,
        [\<lparr>kind = LiteralNode 97, epsilons = [], nxt = Some 2\<rparr>,
         \<lparr>kind = LiteralNode 98, epsilons = [Some 0], nxt = Some 2\<rparr>,
         \<lparr>kind = PipeNode, epsilons = [], nxt = None\<rparr>])
   \<and> (\<exists>m rhs h2 r le re.
      9 = Suc m
    \<and> parseClause m (snd (parser_next \<lparr>inp = ''a|b'', pos = 1, width = 0\<rparr>))
        [\<lparr>kind = LiteralNode 97, epsilons = [], nxt = None\<rparr>] no_expr
        = Inr (rhs, \<lparr>inp = ''a|b'', pos = 3, width = 0\<rparr>, h2)
    \<and> start rhs = Some r \<and> fin \<lparr>start = Some 0, fin = Some (0::nat)\<rparr> = Some le \<and> fin rhs = Some re
    \<and> kind ([\<lparr>kind = LiteralNode 97, epsilons = [], nxt = Some 2\<rparr>,
         \<lparr>kind = LiteralNode 98, epsilons = [Some 0], nxt = Some 2\<rparr>,
         \<lparr>kind = PipeNode, epsilons = [], nxt = None\<rparr>] ! length h2) = PipeNode
    \<and> \<lparr>start = Some 1, fin = Some 2\<rparr> = \<lparr>start = Some r, fin = Some (length h2)\<rparr>)"
proof -
  have run: "parsePipe 9 \<lparr>inp = ''a|b'', pos = 1, width = 0\<rparr>
      [\<lparr>kind = LiteralNode 97, epsilons = [], nxt = None\<rparr>] \<lparr>start = Some 0, fin = Some 0\<rparr>
    = Inr (\<lparr>start = Some 1, fin = Some 2\<rparr>, \<lparr>inp = ''a|b'', pos = 3, width = 0\<rparr>,
        [\<lparr>kind = LiteralNode 97, epsilons = [], nxt = Some 2\<rparr>,
         \<lparr>kind = LiteralNode 98, epsilons = [Some 0], nxt = Some 2\<rparr>,
         \<lparr>kind = PipeNode, epsilons = [], nxt = None\<rparr>])"
    by (simp add: run_parser)
  from pipe_wiring[OF run] run show ?thesis
    by blast
qed

text \<open>
  The claim as stated fails for \<^verbatim>\<open>a|b\<close>: after \<^verbatim>\<open>parsePipe\<close> the entry of the left
  fragment (node 0) has no epsilon edge to the entry of the right clause (node 1); the
  edge that was added leads from node 1 to node 0.
\<close>

theorem pipe_edge_direction_counterexample:
  "parsePipe 9 \<lparr>inp = ''a|b'', pos = 1, width = 0\<rparr>
      [\<lparr>kind = LiteralNode 97, epsilons = [], nxt = None\<rparr>] \<lparr>start = Some 0, fin = Some 0\<rparr>
    = Inr (\<lparr>start = Some 1, fin = Some 2\<rparr>, \<lparr>inp = ''a|b'', pos = 3, width = 0\<rparr>,
        [\<lparr>kind = LiteralNode 97, epsilons = [], nxt = Some 2\<rparr>,
         \<lparr>kind = LiteralNode 98, epsilons = [Some 0], nxt = Some 2\<rparr>,
         \<lparr>kind = PipeNode, epsilons = [], nxt = None\<rparr>])
   \<and> Some 1 \<notin> set (epsilons ([\<lparr>kind = LiteralNode 97, epsilons = [], nxt = Some 2\<rparr>,
         \<lparr>kind = LiteralNode 98, epsilons = [Some 0], nxt = Some 2\<rparr>,
         \<lparr>kind = PipeNode, epsilons = [], nxt = None\<rparr>] ! 0))
   \<and> Some 0 \<in> set (epsilons ([\<lparr>kind = LiteralNode 97, epsilons = [], nxt = Some 2\<rparr>,
         \<lparr>kind = LiteralNode 98, epsilons = [Some 0], nxt = Some 2\<rparr>,
         \<lparr>kind = PipeNode, epsilons = [], nxt = None\<rparr>] ! 1))"
  by (simp add: run_parser)

section \<open>The arena of a compiled pattern\<close>

lemma in_arena_not_empty: "in_arena h e \<Longrightarrow> \<not> isEmpty e"
  by (auto simp: in_arena_def isEmpty_def no_expr_def)

lemma in_arena_mono: "in_arena h e \<Longrightarrow> length h \<le> length h' \<Longrightarrow> in_arena h' e"
  by (auto simp: in_arena_def)

lemma expr_wf_mono: "expr_wf h e \<Longrightarrow> length h \<le> length h' \<Longrightarrow> expr_wf h' e"
  by (auto simp: expr_wf_def intro: in_arena_mono)

lemma expr_wf_empty: "expr_wf h no_expr"
  by (simp add: expr_wf_def isEmpty_def)

lemma wf_heap_update:
  assumes w: "wf_heap h" and a: "a < length h"
    and v: "\<forall>e\<in>set (epsilons v). \<exists>b. e = Some b \<and> b < length h"
  shows "wf_heap (h[a := v])"
proof -
  have "set (h[a := v]) \<subseteq> insert v (set h)" by (rule set_update_subset_insert)
  with w v show ?thesis unfolding wf_heap_def by auto
qed

lemma wf_heap_append:
  assumes "wf_heap h"
  shows "wf_heap (h @ [\<lparr>kind = k, epsilons = [], nxt = None\<rparr>])"
  unfolding wf_heap_def
proof (intro ballI)
  fix x e
  assume x: "x \<in> set (h @ [\<lparr>kind = k, epsilons = [], nxt = None\<rparr>])" and e: "e \<in> set (epsilons x)"
  from x e have "x \<in> set h" by auto
  with assms e obtain b where "e = Some b" "b < length h" unfolding wf_heap_def by blast
  then show "\<exists>b. e = Some b \<and> b < length (h @ [\<lparr>kind = k, epsilons = [], nxt = None\<rparr>])"
    by simp
qed

lemma new_node_wf:
  assumes "wf_heap h" "new_node h k = (n, h1)"
  shows "wf_heap h1" "n = length h" "length h1 = Suc (length h)"
  using assms wf_heap_append[of h k] by (auto simp: new_node_def)

lemma addEpsilon_wf:
  assumes w: "wf_heap h" and b: "b < length h" and r: "addEpsilon h a (Some b) = Inr h'"
  shows "wf_heap h'" "length h' = length h"
proof -
  from r obtain x where a: "a = Some x" "x < length h"
    and h': "h' = h[x := (h ! x)\<lparr>epsilons := epsilons (h ! x) @ [Some b]\<rparr>]"
    by (cases a) (auto split: if_splits)
  have "h ! x \<in> set h" using a by simp
  with w have "\<forall>e\<in>set (epsilons (h ! x)). \<exists>b. e = Some b \<and> b < length h"
    by (simp add: wf_heap_def)
  with b have "\<forall>e\<in>set (epsilons ((h ! x)\<lparr>epsilons := epsilons (h ! x) @ [Some b]\<rparr>)).
      \<exists>b. e = Some b \<and> b < length h"
    by auto
  from wf_heap_update[OF w a(2) this] show "wf_heap h'" by (simp add: h')
  show "length h' = length h" by (simp add: h')
qed

lemma setNext_wf:
  assumes w: "wf_heap h" and r: "setNext h a x = Inr h'"
  shows "wf_heap h'" "length h' = length h"
proof -
  from r obtain y where a: "a = Some y" "y < length h"
    and h': "h' = h[y := (h ! y)\<lparr>nxt := x\<rparr>]"
    by (cases a) (auto split: if_splits)
  have "h ! y \<in> set h" using a by simp
  with w have "\<forall>e\<in>set (epsilons ((h ! y)\<lparr>nxt := x\<rparr>)). \<exists>b. e = Some b \<and> b < length h"
    by (simp add: wf_heap_def)
  from wf_heap_update[OF w a(2) this] show "wf_heap h'" by (simp add: h')
  show "length h' = length h" by (simp add: h')
qed

lemma concat_expr_wf:
  assumes w: "wf_heap h" and e: "expr_wf h e" and nx: "expr_wf h nx"
    and r: "concat_expr h e nx = Inr (e', h')"
  shows "wf_heap h'" "expr_wf h' e'" "length h' = length h"
    "in_arena h e \<or> in_arena h nx \<Longrightarrow> in_arena h' e'"
proof -
  have all: "wf_heap h' \<and> expr_wf h' e' \<and> length h' = length h
      \<and> (in_arena h e \<or> in_arena h nx \<longrightarrow> in_arena h' e')"
  proof (cases "isEmpty e")
    case True
    then have "e' = nx" "h' = h" using r by (simp_all add: concat_expr_def)
    then show ?thesis using w nx True in_arena_not_empty by (auto simp: expr_wf_def)
  next
    case ne: False
    show ?thesis
    proof (cases "isEmpty nx")
      case True
      then have "e' = e" "h' = h" using r ne by (simp_all add: concat_expr_def)
      then show ?thesis using w e True in_arena_not_empty by (auto simp: expr_wf_def)
    next
      case False
      from e ne obtain a b where ea: "start e = Some a" "a < length h" "fin e = Some b" "b < length h"
        by (auto simp: expr_wf_def in_arena_def)
      from nx False obtain c d where na: "start nx = Some c" "c < length h" "fin nx = Some d" "d < length h"
        by (auto simp: expr_wf_def in_arena_def)
      from r ne False ea na have e': "e' = e\<lparr>fin := fin nx\<rparr>"
        and hh: "setNext h (Some b) (Some c) = Inr h' \<or> addEpsilon h (Some b) (Some c) = Inr h'"
        by (auto simp: concat_expr_def split: sum.splits if_splits)
      from hh have "wf_heap h' \<and> length h' = length h"
        using setNext_wf[OF w] addEpsilon_wf[OF w na(2)] by blast
      moreover have "in_arena h e'" using ea na by (simp add: e' in_arena_def)
      ultimately show ?thesis by (auto simp: expr_wf_def in_arena_def)
    qed
  qed
  from all show "wf_heap h'" "expr_wf h' e'" "length h' = length h"
    "in_arena h e \<or> in_arena h nx \<Longrightarrow> in_arena h' e'" by blast+
qed

lemma node_in_arena: "n < length h \<Longrightarrow> in_arena h \<lparr>start = Some n, fin = Some n\<rparr>"
  by (simp add: in_arena_def)

lemma concatNode_wf:
  assumes w: "wf_heap h" and e: "expr_wf h e" and n: "n < length h"
    and r: "concatNode h e (Some n) = Inr (e', h')"
  shows "wf_heap h'" "in_arena h' e'" "length h' = length h"
proof -
  have nx: "expr_wf h \<lparr>start = Some n, fin = Some n\<rparr>"
    using n by (simp add: expr_wf_def in_arena_def)
  from r have c: "concat_expr h e \<lparr>start = Some n, fin = Some n\<rparr> = Inr (e', h')"
    by (simp add: concatNode_def)
  show "wf_heap h'" by (rule concat_expr_wf(1)[OF w e nx c])
  show "length h' = length h" by (rule concat_expr_wf(3)[OF w e nx c])
  show "in_arena h' e'" using concat_expr_wf(4)[OF w e nx c] node_in_arena[OF n] by blast
qed

lemma parseLiteral_wf:
  assumes "wf_heap h" "parseLiteral p h = Inr (e, p', h')"
  shows "wf_heap h' \<and> in_arena h' e \<and> length h \<le> length h'"
proof -
  obtain r p1 where n: "parser_next p = (r, p1)" by (cases "parser_next p")
  obtain a h1 where nn: "new_node h (LiteralNode r) = (a, h1)" by (cases "new_node h (LiteralNode r)")
  from assms(2) n nn have "e = \<lparr>start = Some a, fin = Some a\<rparr>" "h' = h1"
    by (simp_all add: parseLiteral_def)
  with new_node_wf[OF assms(1) nn] show ?thesis by (simp add: in_arena_def)
qed

lemma parseDot_wf:
  assumes "wf_heap h" "parseDot p h = Inr (e, p', h')"
  shows "wf_heap h' \<and> in_arena h' e \<and> length h \<le> length h'"
proof -
  obtain r p1 where n: "parser_next p = (r, p1)" by (cases "parser_next p")
  obtain a h1 where nn: "new_node h DotNode = (a, h1)" by (cases "new_node h DotNode")
  from assms(2) n nn have "e = \<lparr>start = Some a, fin = Some a\<rparr>" "h' = h1"
    by (simp_all add: parseDot_def)
  with new_node_wf[OF assms(1) nn] show ?thesis by (simp add: in_arena_def)
qed

lemma parseEscape_wf:
  assumes "wf_heap h" "parseEscape p h = Inr (e, p', h')"
  shows "wf_heap h' \<and> in_arena h' e \<and> length h \<le> length h'"
proof -
  from assms(2) obtain p2 where "parseLiteral p2 h = Inr (e, p', h')"
    by (auto simp: parseEscape_def split: prod.splits if_splits)
  from parseLiteral_wf[OF assms(1) this] show ?thesis .
qed


lemma parseMeta_wf:
  assumes w: "wf_heap h" and t: "in_arena h t" and r: "parseMeta p h t = Inr (e', p', h')"
  shows "wf_heap h' \<and> in_arena h' e' \<and> length h \<le> length h'"
proof -
  obtain mc p1 where nx: "parser_next p = (mc, p1)" by (cases "parser_next p")
  from t obtain a where a: "start t = Some a" "a < length h" by (auto simp: in_arena_def)
  have quant: "wf_heap h' \<and> in_arena h' e' \<and> length h \<le> length h'"
    if nn: "new_node h k = (n, h1)"
      and ed: "wf_heap h1 \<Longrightarrow> wf_heap h2 \<and> length h2 = length h1"
      and cn: "concatNode h2 t (Some n) = Inr (e', h')"
    for k n h1 h2
  proof -
    note n1 = new_node_wf[OF w nn]
    from ed[OF n1(1)] have w2: "wf_heap h2" and l2: "length h2 = length h1" by simp_all
    have t2: "expr_wf h2 t" using t l2 n1(3) by (auto simp: expr_wf_def in_arena_def)
    have n2: "n < length h2" using n1 l2 by simp
    from concatNode_wf[OF w2 t2 n2 cn] l2 n1(3) show ?thesis by simp
  qed
  consider (plus) "mc = PLUS" | (star) "mc \<noteq> PLUS" "mc = STAR"
    | (qmark) "mc \<noteq> PLUS" "mc \<noteq> STAR" "mc = QMARK"
    | (other) "mc \<noteq> PLUS" "mc \<noteq> STAR" "mc \<noteq> QMARK"
    by blast
  then show ?thesis
  proof cases
    case plus
    obtain n h1 where nn: "new_node h PlusNode = (n, h1)" by (cases "new_node h PlusNode")
    from r nx plus nn obtain h2 where e1: "addEpsilon h1 (Some n) (start t) = Inr h2"
      and cn: "concatNode h2 t (Some n) = Inr (e', h')"
      by (auto simp: parseMeta_def split: sum.splits)
    have "wf_heap h1 \<Longrightarrow> wf_heap h2 \<and> length h2 = length h1"
      using addEpsilon_wf[of h1 a "Some n" h2] e1 a new_node_wf(3)[OF w nn] by simp
    from quant[OF nn this cn] show ?thesis .
  next
    case star
    obtain n h1 where nn: "new_node h StarNode = (n, h1)" by (cases "new_node h StarNode")
    from r nx star nn obtain h2 h3 where e1: "addEpsilon h1 (Some n) (start t) = Inr h2"
      and e2: "addEpsilon h2 (start t) (Some n) = Inr h3"
      and cn: "concatNode h3 t (Some n) = Inr (e', h')"
      by (auto simp: parseMeta_def split: sum.splits)
    have "wf_heap h3 \<and> length h3 = length h1" if w1: "wf_heap h1"
    proof -
      have s1: "wf_heap h2" "length h2 = length h1"
        using addEpsilon_wf[of h1 a "Some n" h2] e1 a new_node_wf(3)[OF w nn] w1 by simp_all
      have "n < length h2" using new_node_wf(2,3)[OF w nn] s1(2) by simp
      from addEpsilon_wf[OF s1(1) this e2] s1(2) show ?thesis by simp
    qed
    from quant[OF nn this cn] show ?thesis .
  next
    case qmark
    obtain n h1 where nn: "new_node h QmarkNode = (n, h1)" by (cases "new_node h QmarkNode")
    from r nx qmark nn obtain h2 where e1: "addEpsilon h1 (start t) (Some n) = Inr h2"
      and cn: "concatNode h2 t (Some n) = Inr (e', h')"
      by (auto simp: parseMeta_def split: sum.splits)
    have "wf_heap h1 \<Longrightarrow> wf_heap h2 \<and> length h2 = length h1"
      using addEpsilon_wf[of h1 n "start t" h2] e1 new_node_wf(2,3)[OF w nn] by simp
    from quant[OF nn this cn] show ?thesis .
  next
    case other
    from r nx other have "e' = t" "h' = h"
      using in_arena_not_empty[OF t]
      by (auto simp: parseMeta_def concatNode_def concat_expr_def isEmpty_def no_expr_def
          split: sum.splits)
    with w t show ?thesis by simp
  qed
qed

lemma clause_wf_step:
  assumes c: "clause_wf n" and pi: "pipe_wf n" and tm: "term_wf n"
  shows "clause_wf (Suc n)"
  unfolding clause_wf_def
proof (intro allI impI)
  fix p :: parser and h :: heap and e e' :: expr and p' :: parser and h' :: heap
  assume w: "wf_heap h" and e: "expr_wf h e"
    and run: "parseClause (Suc n) p h e = Inr (e', p', h')"
  obtain r p1 where pk: "peek p = (r, p1)" by (cases "peek p")
  consider (stop) "r = RuneError \<or> r = RPAREN"
    | (pipe) "r \<noteq> RuneError" "r \<noteq> RPAREN" "r = PIPE"
    | (trm) "r \<noteq> RuneError" "r \<noteq> RPAREN" "r \<noteq> PIPE"
    by blast
  then show "wf_heap h' \<and> expr_wf h' e' \<and> length h \<le> length h'"
  proof cases
    case stop
    then have "e' = e" "h' = h" using run pk by (auto simp: parseClause.simps)
    with w e show ?thesis by simp
  next
    case pipe
    from run pk pipe obtain e2 p2 h2 where
      r1: "parsePipe n p1 h e = Inr (e2, p2, h2)" and r2: "parseClause n p2 h2 e2 = Inr (e', p', h')"
      by (auto simp: parseClause.simps split: sum.splits)
    have s1: "wf_heap h2 \<and> expr_wf h2 e2 \<and> length h \<le> length h2"
      using pi w e r1 unfolding pipe_wf_def by blast
    have s2: "wf_heap h' \<and> expr_wf h' e' \<and> length h2 \<le> length h'"
      using c s1 r2 unfolding clause_wf_def by blast
    with s1 show ?thesis by simp
  next
    case trm
    from run pk trm obtain nx p2 h2 e3 h3 where
      r1: "parseTerm n p1 h = Inr (nx, p2, h2)"
      and r2: "concat_expr h2 e nx = Inr (e3, h3)"
      and r3: "parseClause n p2 h3 e3 = Inr (e', p', h')"
      by (auto simp: parseClause.simps split: sum.splits)
    have s1: "wf_heap h2 \<and> in_arena h2 nx \<and> length h \<le> length h2"
      using tm w r1 unfolding term_wf_def by blast
    have e2: "expr_wf h2 e" using e s1 by (auto intro: expr_wf_mono)
    have nx2: "expr_wf h2 nx" using s1 by (simp add: expr_wf_def)
    note cc = concat_expr_wf[OF _ e2 nx2 r2]
    have s2: "wf_heap h3" "expr_wf h3 e3" "length h3 = length h2" using cc s1 by simp_all
    have s3: "wf_heap h' \<and> expr_wf h' e' \<and> length h3 \<le> length h'"
      using c s2 r3 unfolding clause_wf_def by blast
    with s1 s2 show ?thesis by simp
  qed
qed

lemma pipe_wf_step:
  assumes c: "clause_wf n"
  shows "pipe_wf (Suc n)"
  unfolding pipe_wf_def
proof (intro allI impI)
  fix p :: parser and h :: heap and lhs e' :: expr and p' :: parser and h' :: heap
  assume w: "wf_heap h" and l: "expr_wf h lhs"
    and run: "parsePipe (Suc n) p h lhs = Inr (e', p', h')"
  obtain r0 p1 where nx: "parser_next p = (r0, p1)" by (cases "parser_next p")
  from run nx have ne: "\<not> isEmpty lhs"
    by (auto simp: parsePipe.simps split: if_splits prod.splits)
  with l obtain a where a: "start lhs = Some a" "a < length h"
    by (auto simp: expr_wf_def in_arena_def)
  from run nx ne obtain e2 p2 h2 h3 where r1: "parseClause n p1 h no_expr = Inr (e2, p2, h2)"
    and r2: "addEpsilon h2 (start e2) (start lhs) = Inr h3"
    and rest: "(let (k, h4) = new_node h3 PipeNode in
                  case concatNode h4 e2 (Some k) of
                    Inl f \<Rightarrow> Inl f
                  | Inr (e', h5) \<Rightarrow>
                      (case concatNode h5 lhs (Some k) of
                         Inl f \<Rightarrow> Inl f
                       | Inr (lhs', h6) \<Rightarrow> Inr (e', p2, h6))) = Inr (e', p', h')"
    by (auto simp: parsePipe.simps split: sum.splits)
  have s1: "wf_heap h2 \<and> expr_wf h2 e2 \<and> length h \<le> length h2"
    using c w expr_wf_empty r1 unfolding clause_wf_def by blast
  have a2: "a < length h2" using a s1 by simp
  have s2: "wf_heap h3" "length h3 = length h2"
    using addEpsilon_wf[OF _ a2, of "start e2" h3] r2 a s1 by simp_all
  obtain k h4 where nn: "new_node h3 PipeNode = (k, h4)" by (cases "new_node h3 PipeNode")
  note n4 = new_node_wf[OF s2(1) nn]
  from rest nn obtain h5 lhs' where r3: "concatNode h4 e2 (Some k) = Inr (e', h5)"
    and r4: "concatNode h5 lhs (Some k) = Inr (lhs', h')"
    by (auto split: sum.splits)
  have e4: "expr_wf h4 e2" using s1 s2 n4 by (auto intro: expr_wf_mono)
  have k4: "k < length h4" using n4 by simp
  note c5 = concatNode_wf[OF n4(1) e4 k4 r3]
  have l5: "expr_wf h5 lhs" using l s1 s2 n4 c5 by (auto intro: expr_wf_mono)
  have k5: "k < length h5" using k4 c5 by simp
  note c6 = concatNode_wf[OF c5(1) l5 k5 r4]
  have "in_arena h' e'" using c5(2) c6(3) by (auto intro: in_arena_mono)
  then show "wf_heap h' \<and> expr_wf h' e' \<and> length h \<le> length h'"
    using c6 c5 n4 s2 s1 by (simp add: expr_wf_def)
qed

lemma term_wf_step:
  assumes sb: "subexp_wf n"
  shows "term_wf (Suc n)"
  unfolding term_wf_def
proof (intro allI impI)
  fix p :: parser and h :: heap and e' :: expr and p' :: parser and h' :: heap
  assume w: "wf_heap h" and run: "parseTerm (Suc n) p h = Inr (e', p', h')"
  obtain r p1 where pk: "peek p = (r, p1)" by (cases "peek p")
  let ?atom = "if r = LPAREN then parseSubexp n p1 h
            else if r = BACKSLASH then parseEscape p1 h
            else if r = DOT then parseDot p1 h
            else parseLiteral p1 h"
  from run pk obtain e2 p2 h2 where at: "?atom = Inr (e2, p2, h2)"
    and rest: "(let (r2, p3) = peek p2 in
              if r2 = QMARK \<or> r2 = PLUS \<or> r2 = STAR then parseMeta p3 h2 e2
              else Inr (e2, p3, h2)) = Inr (e', p', h')"
    by (auto simp: parseTerm.simps split: if_splits sum.splits)
  have s1: "wf_heap h2 \<and> in_arena h2 e2 \<and> length h \<le> length h2"
  proof -
    have "parseSubexp n p1 h = Inr (e2, p2, h2) \<Longrightarrow> ?thesis"
      using sb w unfolding subexp_wf_def by blast
    then show ?thesis
      using at parseEscape_wf[OF w] parseDot_wf[OF w] parseLiteral_wf[OF w]
      by (auto split: if_splits)
  qed
  obtain r2 p3 where pk2: "peek p2 = (r2, p3)" by (cases "peek p2")
  show "wf_heap h' \<and> in_arena h' e' \<and> length h \<le> length h'"
  proof (cases "r2 = QMARK \<or> r2 = PLUS \<or> r2 = STAR")
    case True
    then have m: "parseMeta p3 h2 e2 = Inr (e', p', h')" using rest pk2 by simp
    from parseMeta_wf[OF _ _ m] s1 show ?thesis by simp
  next
    case False
    then have "e' = e2" "h' = h2" using rest pk2 by simp_all
    with s1 show ?thesis by simp
  qed
qed

lemma subexp_wf_step:
  assumes c: "clause_wf n"
  shows "subexp_wf (Suc n)"
  unfolding subexp_wf_def
proof (intro allI impI)
  fix p :: parser and h :: heap and e' :: expr and p' :: parser and h' :: heap
  assume w: "wf_heap h" and run: "parseSubexp (Suc n) p h = Inr (e', p', h')"
  obtain r0 p1 where nx: "parser_next p = (r0, p1)" by (cases "parser_next p")
  from run nx obtain e2 p2 h2 where r1: "parseClause n p1 h no_expr = Inr (e2, p2, h2)"
    and rest: "(let (r, p3) = parser_next p2;
              (lp, h3) = new_node h2 LeftParenNode;
              (rp, h4) = new_node h3 RightParenNode
          in case concat_expr h4 \<lparr>start = Some lp, fin = Some lp\<rparr> e2 of
               Inl f \<Rightarrow> Inl f
             | Inr (e1, h5) \<Rightarrow>
                 (case concatNode h5 e1 (Some rp) of
                    Inl f \<Rightarrow> Inl f
                  | Inr (e2, h6) \<Rightarrow>
                      if r \<noteq> RPAREN then Inl (Err (UnterminatedSubexp (pos p)))
                      else Inr (e2, p3, h6))) = Inr (e', p', h')"
    by (auto simp: parseSubexp.simps split: sum.splits)
  have s1: "wf_heap h2 \<and> expr_wf h2 e2 \<and> length h \<le> length h2"
    using c w expr_wf_empty r1 unfolding clause_wf_def by blast
  obtain r p3 where nx2: "parser_next p2 = (r, p3)" by (cases "parser_next p2")
  obtain lp h3 where n3: "new_node h2 LeftParenNode = (lp, h3)" by (cases "new_node h2 LeftParenNode")
  obtain rp h4 where n4: "new_node h3 RightParenNode = (rp, h4)" by (cases "new_node h3 RightParenNode")
  have w2: "wf_heap h2" using s1 by simp
  note m3 = new_node_wf[OF w2 n3]
  note m4 = new_node_wf[OF m3(1) n4]
  from rest nx2 n3 n4 obtain e1 h5 where
    r2: "concat_expr h4 \<lparr>start = Some lp, fin = Some lp\<rparr> e2 = Inr (e1, h5)"
    and r3: "concatNode h5 e1 (Some rp) = Inr (e', h')"
    by (auto split: sum.splits if_splits)
  have lp4: "in_arena h4 \<lparr>start = Some lp, fin = Some lp\<rparr>"
    using m3 m4 by (simp add: in_arena_def)
  then have lpw: "expr_wf h4 \<lparr>start = Some lp, fin = Some lp\<rparr>" by (simp add: expr_wf_def)
  have e4: "expr_wf h4 e2" using s1 m3 m4 by (auto intro: expr_wf_mono)
  note c5 = concat_expr_wf[OF m4(1) lpw e4 r2]
  have rp5: "rp < length h5" using m4 c5(3) by simp
  note c6 = concatNode_wf[OF c5(1) c5(2) rp5 r3]
  show "wf_heap h' \<and> in_arena h' e' \<and> length h \<le> length h'"
    using c6 c5(3) m4 m3 s1 by simp
qed

lemma parser_wf: "clause_wf n \<and> pipe_wf n \<and> term_wf n \<and> subexp_wf n"
proof (induction n)
  case 0
  show ?case
    by (simp add: clause_wf_def pipe_wf_def term_wf_def subexp_wf_def
        parseClause.simps parsePipe.simps parseTerm.simps parseSubexp.simps)
next
  case (Suc n)
  then show ?case
    using clause_wf_step pipe_wf_step term_wf_step subexp_wf_step by blast
qed

lemma wf_heap_Nil: "wf_heap []"
  by (simp add: wf_heap_def)

text \<open>
  The arena of a compiled pattern is well formed: its epsilon lists hold nodes of the
  arena only, never nil; the entry and the accepting node are nodes of the arena.
\<close>

theorem compiled_arena:
  assumes "Compile p = Inr re"
  shows "wf_heap (nodes re)"
    and "\<exists>a. rstart re = Some a \<and> a < length (nodes re)"
    and "\<exists>t. rterm re = Some t \<and> t < length (nodes re)"
proof -
  let ?p0 = "\<lparr>inp = p, pos = 0, width = 0\<rparr>"
  from assms obtain e p1 h where pc: "parseClause (fuel_of p) ?p0 [] no_expr = Inr (e, p1, h)"
    by (auto simp: Compile_def parse_def split: sum.splits)
  obtain t h1 where nn: "new_node h TerminalNode = (t, h1)" by (cases "new_node h TerminalNode")
  from assms pc nn obtain e' where cn: "concatNode h1 e (Some t) = Inr (e', nodes re)"
    and st: "rstart re = start e'" "rterm re = fin e'"
    by (auto simp: Compile_def parse_def Let_def split: sum.splits if_splits prod.splits)
  have cw: "clause_wf (fuel_of p)" using parser_wf by blast
  have e0: "expr_wf [] no_expr" by (rule expr_wf_empty)
  have s1: "wf_heap h \<and> expr_wf h e"
    using cw wf_heap_Nil e0 pc unfolding clause_wf_def by blast
  then have w: "wf_heap h" by simp
  note m = new_node_wf[OF w nn]
  have e1: "expr_wf h1 e" using s1 m by (auto intro: expr_wf_mono)
  have t1: "t < length h1" using m by simp
  note c = concatNode_wf[OF m(1) e1 t1 cn]
  show "wf_heap (nodes re)" by (rule c(1))
  from c(2) st show "\<exists>a. rstart re = Some a \<and> a < length (nodes re)"
    "\<exists>t. rterm re = Some t \<and> t < length (nodes re)"
    by (auto simp: in_arena_def)
qed

section \<open>Stacked quantifiers\<close>

lemma decode_ascii: "(of_char b :: nat) < 0x80 \<Longrightarrow> DecodeRuneInString (b # s) = (of_char b, 1)"
  by simp

lemma drop_Suc_Cons2: "drop i s = b # t \<Longrightarrow> drop (Suc i) s = t"
  by (metis drop_Suc tl_drop list.sel(3))

lemma peek_ascii:
  "drop (pos p) (inp p) = b # t \<Longrightarrow> (of_char b :: nat) < 0x80 \<Longrightarrow> peek p = (of_char b, p\<lparr>width := 0\<rparr>)"
  by (simp add: peek_def parser_next_def backup_def)

lemma next_ascii:
  "drop (pos p) (inp p) = b # t \<Longrightarrow> (of_char b :: nat) < 0x80
    \<Longrightarrow> parser_next p = (of_char b, p\<lparr>pos := Suc (pos p), width := Suc 0\<rparr>)"
  by (simp add: parser_next_def)

lemma concat_literal_ok:
  assumes "expr_ok h e"
  shows "\<exists>e' h'. concat_expr (h @ [\<lparr>kind = k, epsilons = [], nxt = None\<rparr>]) e
            \<lparr>start = Some (length h), fin = Some (length h)\<rparr> = Inr (e', h')
          \<and> expr_ok h' e'"
  using assms
  by (auto simp: concat_expr_def expr_ok_def isEmpty_def no_expr_def)

lemma clause_plain_step:
  assumes d: "drop (pos p) (inp p) = b # b' # rest" and b: "plain b" and b': "plain b'"
    and ok: "expr_ok h e"
  shows "\<exists>e' h'. expr_ok h' e' \<and>
    parseClause (Suc (Suc n)) p h e = parseClause (Suc n) (p\<lparr>pos := Suc (pos p), width := 0\<rparr>) h' e'"
proof -
  have pk: "peek p = (of_char b, p\<lparr>width := 0\<rparr>)"
    using d b by (simp add: peek_ascii plain_def)
  let ?p1 = "p\<lparr>width := 0\<rparr>"
  have d1: "drop (pos ?p1) (inp ?p1) = b # b' # rest" using d by simp
  have pk1: "peek ?p1 = (of_char b, ?p1)"
    using peek_ascii[OF d1] b by (simp add: plain_def)
  have nx: "parser_next ?p1 = (of_char b, p\<lparr>pos := Suc (pos p), width := Suc 0\<rparr>)"
    using next_ascii[OF d1] b by (simp add: plain_def)
  let ?p2 = "p\<lparr>pos := Suc (pos p), width := Suc 0\<rparr>"
  have d2: "drop (pos ?p2) (inp ?p2) = b' # rest"
    using drop_Suc_Cons2[OF d] by simp
  have pk2: "peek ?p2 = (of_char b', p\<lparr>pos := Suc (pos p), width := 0\<rparr>)"
    using peek_ascii[OF d2] b' by (simp add: plain_def)
  have tm: "parseTerm (Suc n) ?p1 h =
      Inr (\<lparr>start = Some (length h), fin = Some (length h)\<rparr>, p\<lparr>pos := Suc (pos p), width := 0\<rparr>,
           h @ [\<lparr>kind = LiteralNode (of_char b), epsilons = [], nxt = None\<rparr>])"
    using b b' by (simp add: parseTerm.simps pk1 nx pk2 parseLiteral_def new_node_def plain_def)
  from concat_literal_ok[OF ok, of "LiteralNode (of_char b)"] obtain e' h' where
    c: "concat_expr (h @ [\<lparr>kind = LiteralNode (of_char b), epsilons = [], nxt = None\<rparr>]) e
            \<lparr>start = Some (length h), fin = Some (length h)\<rparr> = Inr (e', h')" and ok': "expr_ok h' e'"
    by blast
  have "parseClause (Suc (Suc n)) p h e = parseClause (Suc n) (p\<lparr>pos := Suc (pos p), width := 0\<rparr>) h' e'"
    using b by (subst parseClause.simps) (simp add: pk tm c plain_def)
  with ok' show ?thesis by blast
qed


lemma concat_expr_ok:
  "expr_ok h e \<Longrightarrow> \<exists>e' h'. concat_expr h e nx = Inr (e', h')"
  by (auto simp: concat_expr_def expr_ok_def)

lemma expr_ok_mono: "expr_ok h e \<Longrightarrow> length h \<le> length h' \<Longrightarrow> expr_ok h' e"
  by (auto simp: expr_ok_def)

lemma parseMeta_literal:
  assumes "parser_next p = (q, p')" "q = 63 \<or> q = 43 \<or> q = 42"
  shows "\<exists>e1 h1. parseMeta p (h @ [\<lparr>kind = k, epsilons = [], nxt = None\<rparr>])
            \<lparr>start = Some (length h), fin = Some (length h)\<rparr> = Inr (e1, p', h1)
          \<and> length h \<le> length h1"
  using assms
  by (auto simp: parseMeta_def new_node_def concatNode_def concat_expr_def isEmpty_def
      no_expr_def nth_append)

lemma clause_stacked_step:
  assumes d: "drop (pos p) (inp p) = c # q1 # q2 # rest" and c: "plain c"
    and q1: "quantifier q1" and q2: "quantifier q2" and ok: "expr_ok h e"
  shows "parseClause (Suc (Suc (Suc n))) p h e
    = Inl (Err (InvalidCharacter (of_char q2) (pos p + 2)))"
proof -
  have a1: "(of_char q1 :: nat) < 0x80" and a2: "(of_char q2 :: nat) < 0x80"
    using q1 q2 by (auto simp: quantifier_def)
  have pk: "peek p = (of_char c, p\<lparr>width := 0\<rparr>)"
    using d c by (simp add: peek_ascii plain_def)
  let ?p1 = "p\<lparr>width := 0\<rparr>"
  have d1: "drop (pos ?p1) (inp ?p1) = c # q1 # q2 # rest" using d by simp
  have pk1: "peek ?p1 = (of_char c, ?p1)"
    using peek_ascii[OF d1] c by (simp add: plain_def)
  have nx: "parser_next ?p1 = (of_char c, p\<lparr>pos := Suc (pos p), width := Suc 0\<rparr>)"
    using next_ascii[OF d1] c by (simp add: plain_def)
  let ?p2 = "p\<lparr>pos := Suc (pos p), width := Suc 0\<rparr>"
  have d2: "drop (pos ?p2) (inp ?p2) = q1 # q2 # rest"
    using drop_Suc_Cons2[OF d] by simp
  have pk2: "peek ?p2 = (of_char q1, p\<lparr>pos := Suc (pos p), width := 0\<rparr>)"
    using peek_ascii[OF d2 a1] by simp
  let ?p3 = "p\<lparr>pos := Suc (pos p), width := 0\<rparr>"
  have d3: "drop (pos ?p3) (inp ?p3) = q1 # q2 # rest" using d2 by simp
  have nx3: "parser_next ?p3 = (of_char q1, p\<lparr>pos := Suc (Suc (pos p)), width := Suc 0\<rparr>)"
    using next_ascii[OF d3 a1] by simp
  let ?p4 = "p\<lparr>pos := Suc (Suc (pos p)), width := Suc 0\<rparr>"
  have d4: "drop (pos ?p4) (inp ?p4) = q2 # rest"
    using drop_Suc_Cons2[OF d3] by simp
  have pk4: "peek ?p4 = (of_char q2, p\<lparr>pos := Suc (Suc (pos p)), width := 0\<rparr>)"
    using peek_ascii[OF d4 a2] by simp
  let ?p5 = "p\<lparr>pos := Suc (Suc (pos p)), width := 0\<rparr>"
  have d5: "drop (pos ?p5) (inp ?p5) = q2 # rest" using d4 by simp
  have pk5: "peek ?p5 = (of_char q2, ?p5)"
    using peek_ascii[OF d5 a2] by simp
  have qq: "(of_char q1 :: nat) = 63 \<or> (of_char q1 :: nat) = 43 \<or> (of_char q1 :: nat) = 42"
    using q1 by (auto simp: quantifier_def)
  from parseMeta_literal[OF nx3 qq, of h "LiteralNode (of_char c)"] obtain e1 h1 where
    pm: "parseMeta ?p3 (h @ [\<lparr>kind = LiteralNode (of_char c), epsilons = [], nxt = None\<rparr>])
            \<lparr>start = Some (length h), fin = Some (length h)\<rparr> = Inr (e1, ?p4, h1)"
    and len: "length h \<le> length h1" by blast
  have tm: "parseTerm (Suc (Suc n)) ?p1 h = Inr (e1, ?p4, h1)"
    using c qq by (simp add: parseTerm.simps pk1 nx pk2 pm parseLiteral_def new_node_def plain_def)
  from concat_expr_ok[OF expr_ok_mono[OF ok len]] obtain e' h' where
    cc: "concat_expr h1 e e1 = Inr (e', h')" by blast
  have tm2: "parseTerm (Suc n) ?p5 h' = Inl (Err (InvalidCharacter (of_char q2) (pos p + 2)))"
    using q2 by (auto simp: parseTerm.simps pk5 quantifier_def)
  have cl2: "parseClause (Suc (Suc n)) ?p4 h' e' = Inl (Err (InvalidCharacter (of_char q2) (pos p + 2)))"
    using q2 by (subst parseClause.simps) (auto simp: pk4 tm2 quantifier_def)
  show ?thesis
    using c by (subst parseClause.simps) (simp add: pk tm cc cl2 plain_def)
qed

lemma clause_stacked:
  assumes "\<forall>b\<in>set pre. plain b" "plain c" "quantifier q1" "quantifier q2"
    "drop (pos p) (inp p) = pre @ c # q1 # q2 # rest" "expr_ok h e"
  shows "parseClause (length pre + 3 + n) p h e
    = Inl (Err (InvalidCharacter (of_char q2) (pos p + length pre + 2)))"
  using assms
proof (induction pre arbitrary: p h e)
  case Nil
  then show ?case
    using clause_stacked_step[of p c q1 q2 rest h e n] by (simp add: numeral_3_eq_3)
next
  case (Cons b pre)
  obtain b' t where bt: "pre @ c # q1 # q2 # rest = b' # t" and pb': "plain b'"
    using Cons.prems(1,2) by (cases pre) auto
  have d: "drop (pos p) (inp p) = b # b' # t"
    using Cons.prems(5) bt by simp
  from clause_plain_step[OF d _ pb' Cons.prems(6), of "length pre + 2 + n"] Cons.prems(1)
  obtain e' h' where ok': "expr_ok h' e'" and
    st: "parseClause (Suc (Suc (length pre + 2 + n))) p h e
       = parseClause (Suc (length pre + 2 + n)) (p\<lparr>pos := Suc (pos p), width := 0\<rparr>) h' e'"
    by auto
  let ?p' = "p\<lparr>pos := Suc (pos p), width := 0\<rparr>"
  have d': "drop (pos ?p') (inp ?p') = pre @ c # q1 # q2 # rest"
    using drop_Suc_Cons2[OF d] bt by simp
  have ih: "parseClause (length pre + 3 + n) ?p' h' e'
    = Inl (Err (InvalidCharacter (of_char q2) (pos ?p' + length pre + 2)))"
    using Cons.IH[OF _ Cons.prems(2,3,4) d' ok'] Cons.prems(1) by simp
  have eq1: "length (b # pre) + 3 + n = Suc (Suc (length pre + 2 + n))" by simp
  have eq2: "Suc (length pre + 2 + n) = length pre + 3 + n" by simp
  have "parseClause (length (b # pre) + 3 + n) p h e
      = parseClause (Suc (Suc (length pre + 2 + n))) p h e"
    by (simp only: eq1)
  also have "\<dots> = parseClause (Suc (length pre + 2 + n)) ?p' h' e'"
    by (rule st)
  also have "\<dots> = parseClause (length pre + 3 + n) ?p' h' e'"
    by (simp only: eq2)
  also have "\<dots> = Inl (Err (InvalidCharacter (of_char q2) (pos ?p' + length pre + 2)))"
    by (rule ih)
  finally show ?case by simp
qed

lemma clause_at_quantifier:
  assumes "fst (peek p) = QMARK \<or> fst (peek p) = PLUS \<or> fst (peek p) = STAR"
  shows "parseClause (Suc (Suc n)) p h e
    = Inl (Err (InvalidCharacter (fst (peek p)) (pos p)))"
proof -
  obtain r p1 where pk: "peek p = (r, p1)" by (cases "peek p")
  have p1: "p1 = p\<lparr>width := 0\<rparr>"
    using pk by (auto simp: peek_def parser_next_def backup_def split: prod.splits)
  have "peek p1 = (r, p1)"
    using pk p1 by (auto simp: peek_def parser_next_def backup_def split: prod.splits)
  then have "parseTerm (Suc n) p1 h = Inl (Err (InvalidCharacter r (pos p1)))"
    using assms pk by (auto simp: parseTerm.simps)
  then show ?thesis
    using assms pk p1 by (subst parseClause.simps) auto
qed

text \<open>
  After a prefix of plain characters, a plain character with a quantifier and a second
  quantifier directly after it make \<^verbatim>\<open>Compile\<close> return the error of \<^verbatim>\<open>parseTerm\<close> for a
  leading quantifier, at the position of the second quantifier, whatever follows.
\<close>

lemma stacked_after_plain_prefix:
  assumes "\<forall>b\<in>set pre. plain b" "plain c" "quantifier q1" "quantifier q2"
  shows "Compile (pre @ c # q1 # q2 # rest)
    = Inl (Err (InvalidCharacter (of_char q2) (length pre + 2)))"
proof -
  let ?s = "pre @ c # q1 # q2 # rest"
  let ?p = "\<lparr>inp = ?s, pos = 0, width = 0\<rparr>"
  have f: "fuel_of ?s = length pre + 3 + (2 * length pre + 3 * length rest + 7)"
    by (simp add: fuel_of_def)
  have "parseClause (fuel_of ?s) ?p [] no_expr
    = Inl (Err (InvalidCharacter (of_char q2) (pos ?p + length pre + 2)))"
    unfolding f
    by (rule clause_stacked[OF assms]) (simp_all add: expr_ok_def isEmpty_def)
  then show ?thesis
    by (simp add: Compile_def parse_def)
qed


subsection \<open>Stacked quantifiers anywhere in the pattern\<close>

lemma stacked_from_mono: "stacked_from False s \<Longrightarrow> stacked_from q s"
  by (cases s) (auto split: if_splits)

lemma carries_trans: "carries a p b p1 \<Longrightarrow> carries b p1 c p2 \<Longrightarrow> carries a p c p2"
  by (auto simp: carries_def)

lemma carries_weaken: "carries a p False p1 \<Longrightarrow> carries a p q p1"
  by (auto simp: carries_def intro: stacked_from_mono)

lemma carries_peek:
  assumes "peek p = (r, p1)"
  shows "carries q p q p1"
  using peek_same(1,2)[OF assms] by (simp add: carries_def)

lemma decode_ascii_rune:
  assumes "fst (DecodeRuneInString s) < 0x80"
  shows "\<exists>c t. s = c # t \<and> (of_char c :: nat) = fst (DecodeRuneInString s)
    \<and> snd (DecodeRuneInString s) = 1"
proof (cases s)
  case Nil
  with assms show ?thesis by simp
next
  case (Cons c t)
  show ?thesis
  proof (cases "(of_char c :: nat) < 0x80")
    case True
    with Cons show ?thesis by simp
  next
    case False
    show ?thesis
    proof (cases "1 < snd (DecodeRuneInString s)")
      case True
      from decode_multibyte_ge[OF True] assms show ?thesis by simp
    next
      case w: False
      then have "snd (DecodeRuneInString (c # t)) \<le> 1" using Cons by simp
      from decode_single[OF this] assms False Cons show ?thesis by auto
    qed
  qed
qed

lemma decode_bytes_ge:
  assumes c: "0x80 \<le> (of_char c :: nat)"
  shows "\<forall>b\<in>set (take (snd (DecodeRuneInString (c # u))) (c # u)). 0x80 \<le> (of_char b :: nat)"
proof (cases "of_char c :: nat" rule: first_byte_cases)
  case ascii
  with c show ?thesis by simp
next
  case bad
  then show ?thesis using c by (simp add: decode_bad_first del: DecodeRuneInString.simps)
next
  case two
  show ?thesis
  proof (cases u)
    case Nil
    then show ?thesis using c two by (simp add: decode_two del: DecodeRuneInString.simps)
  next
    case (Cons u0 u')
    then show ?thesis using c two
      by (auto simp: decode_two simp del: DecodeRuneInString.simps)
  qed
next
  case three
  show ?thesis
  proof (cases u)
    case Nil
    then show ?thesis using c three by (simp add: decode_three del: DecodeRuneInString.simps)
  next
    case u1: (Cons u0 u')
    show ?thesis
    proof (cases u')
      case Nil
      then show ?thesis using c three u1
        by (simp add: decode_three del: DecodeRuneInString.simps)
    next
      case (Cons u1' u'')
      then show ?thesis using c three u1
        by (auto simp: decode_three simp del: DecodeRuneInString.simps split: if_splits)
    qed
  qed
next
  case four
  show ?thesis
  proof (cases u)
    case Nil
    then show ?thesis using c four by (simp add: decode_four del: DecodeRuneInString.simps)
  next
    case u1: (Cons u0 u')
    show ?thesis
    proof (cases u')
      case Nil
      then show ?thesis using c four u1
        by (simp add: decode_four del: DecodeRuneInString.simps)
    next
      case u2: (Cons u1' u'')
      show ?thesis
      proof (cases u'')
        case Nil
        then show ?thesis using c four u1 u2
          by (simp add: decode_four del: DecodeRuneInString.simps)
      next
        case (Cons u2' u''')
        then show ?thesis using c four u1 u2
          by (auto simp: decode_four simp del: DecodeRuneInString.simps split: if_splits)
      qed
    qed
  qed
qed

lemma stacked_from_skip:
  assumes "\<forall>b\<in>set bs. 0x80 \<le> (of_char b :: nat)" "bs \<noteq> []"
  shows "stacked_from q (bs @ t) = stacked_from False t"
  using assms
proof (induction bs arbitrary: q)
  case Nil
  then show ?case by simp
next
  case (Cons b bs)
  from Cons.prems(1) have b: "0x80 \<le> (of_char b :: nat)" by simp
  then have nq: "\<not> quantifier b" by (auto simp: quantifier_def)
  have "b \<noteq> CHR 0x5C" using b by auto
  with nq have "stacked_from q ((b # bs) @ t) = stacked_from False (bs @ t)" by simp
  also have "\<dots> = stacked_from False t"
  proof (cases "bs = []")
    case True
    then show ?thesis by simp
  next
    case False
    with Cons.IH[of False] Cons.prems(1) show ?thesis by simp
  qed
  finally show ?case .
qed


lemma next_pos:
  assumes "parser_next p = (r, p1)"
  shows "inp p1 = inp p" "r = cur p"
    "pos p1 = pos p + snd (DecodeRuneInString (drop (pos p) (inp p)))"
  using assms by (auto simp: parser_next_def cur_def split: prod.splits)

lemma quantifier_rune: "quantifier c \<longleftrightarrow> (of_char c :: nat) = QMARK \<or> (of_char c :: nat) = PLUS \<or> (of_char c :: nat) = STAR"
  by (auto simp: quantifier_def)

lemma backslash_rune: "c = CHR 0x5C \<longleftrightarrow> (of_char c :: nat) = BACKSLASH"
proof
  assume "c = CHR 0x5C" then show "(of_char c :: nat) = BACKSLASH" by simp
next
  assume "(of_char c :: nat) = BACKSLASH"
  then have "(of_char c :: nat) = of_char (CHR 0x5C)" by simp
  then show "c = CHR 0x5C" by (simp only: of_char_eq_iff)
qed

lemma next_plain:
  assumes n: "parser_next p = (r, p1)"
    and r: "r \<noteq> QMARK" "r \<noteq> PLUS" "r \<noteq> STAR" "r \<noteq> BACKSLASH"
  shows "carries q p False p1"
proof (cases "drop (pos p) (inp p)")
  case Nil
  with next_pos(1)[OF n] show ?thesis by (simp add: carries_def)
next
  case (Cons c t)
  let ?s = "drop (pos p) (inp p)"
  let ?w = "snd (DecodeRuneInString ?s)"
  note np = next_pos[OF n]
  have rr: "r = fst (DecodeRuneInString ?s)" using np(2) by (simp add: cur_def)
  have d: "drop (pos p1) (inp p) = drop ?w ?s" using np(3) by (simp add: add.commute)
  have "stacked_from q ?s = stacked_from False (drop ?w ?s)"
  proof (cases "(of_char c :: nat) < 0x80")
    case True
    then have dec: "DecodeRuneInString ?s = (of_char c, 1)" using Cons by simp
    with rr r have "\<not> quantifier c" "c \<noteq> CHR 0x5C"
      by (simp_all add: quantifier_rune backslash_rune)
    then show ?thesis using dec Cons by simp
  next
    case False
    then have ge: "0x80 \<le> (of_char c :: nat)" by simp
    have bs: "\<forall>b\<in>set (take ?w ?s). 0x80 \<le> (of_char b :: nat)"
      using decode_bytes_ge[OF ge, of t] Cons by simp
    have "0 < ?w" using Cons decode_width_pos[of ?s] by simp
    then have ne: "take ?w ?s \<noteq> []" using Cons by auto
    have "stacked_from q (take ?w ?s @ drop ?w ?s) = stacked_from False (drop ?w ?s)"
      by (rule stacked_from_skip[OF bs ne])
    then show ?thesis by (simp only: append_take_drop_id)
  qed
  with d np(1) show ?thesis by (simp add: carries_def)
qed

lemma next_ascii_rune:
  assumes n: "parser_next p = (r, p1)" and r: "r < 0x80"
  shows "\<exists>c t. drop (pos p) (inp p) = c # t \<and> (of_char c :: nat) = r
    \<and> drop (pos p1) (inp p) = t \<and> inp p1 = inp p"
proof -
  let ?s = "drop (pos p) (inp p)"
  note np = next_pos[OF n]
  have rr: "r = fst (DecodeRuneInString ?s)" using np(2) by (simp add: cur_def)
  have "fst (DecodeRuneInString ?s) < 0x80" using r by (simp only: rr)
  from decode_ascii_rune[OF this] obtain c t where
    s: "?s = c # t" "(of_char c :: nat) = r" "snd (DecodeRuneInString ?s) = 1"
    unfolding rr by blast
  have "drop (pos p1) (inp p) = drop 1 ?s" using np(3) s(3) by (simp add: add.commute)
  with s np(1) show ?thesis by simp
qed

lemma next_quantifier:
  assumes n: "parser_next p = (r, p1)" and r: "r = QMARK \<or> r = PLUS \<or> r = STAR"
  shows "carries False p True p1"
proof -
  from r have "r < 0x80" by auto
  from next_ascii_rune[OF n this] obtain c t where
    s: "drop (pos p) (inp p) = c # t" "(of_char c :: nat) = r"
      "drop (pos p1) (inp p) = t" "inp p1 = inp p"
    by blast
  have "quantifier c" using s(2) r by (simp add: quantifier_rune)
  with s show ?thesis by (simp add: carries_def)
qed

lemma parseLiteral_plain:
  assumes "parseLiteral p h = Inr (e, p', h')"
    and "cur p \<noteq> QMARK" "cur p \<noteq> PLUS" "cur p \<noteq> STAR" "cur p \<noteq> BACKSLASH"
  shows "carries q p False p'"
proof -
  obtain r p1 where n: "parser_next p = (r, p1)" by (cases "parser_next p")
  with assms(1) have "p' = p1" by (simp add: parseLiteral_def new_node_def)
  moreover have "r = cur p" by (rule next_pos(2)[OF n])
  ultimately show ?thesis using next_plain[OF n] assms(2-) by simp
qed

lemma parseDot_plain:
  assumes "parseDot p h = Inr (e, p', h')" "cur p = DOT"
  shows "carries q p False p'"
proof -
  obtain r p1 where n: "parser_next p = (r, p1)" by (cases "parser_next p")
  with assms(1) have "p' = p1" by (simp add: parseDot_def new_node_def)
  moreover have "r = DOT" using next_pos(2)[OF n] assms(2) by simp
  ultimately show ?thesis using next_plain[OF n] by simp
qed

lemma parseEscape_plain:
  assumes run: "parseEscape p h = Inr (e, p', h')" and c: "cur p = BACKSLASH"
  shows "carries q p False p'"
proof -
  obtain r0 p1 where n: "parser_next p = (r0, p1)" by (cases "parser_next p")
  obtain r p2 where k: "peek p1 = (r, p2)" by (cases "peek p1")
  obtain r' p3 where n2: "parser_next p2 = (r', p3)" by (cases "parser_next p2")
  from run n k have r: "r = QMARK \<or> r = STAR \<or> r = PLUS \<or> r = LPAREN \<or> r = RPAREN \<or> r = PIPE"
    and lit: "parseLiteral p2 h = Inr (e, p', h')"
    by (auto simp: parseEscape_def split: if_splits)
  from lit n2 have p': "p' = p3" by (simp add: parseLiteral_def new_node_def)
  have r0: "r0 = BACKSLASH" using next_pos(2)[OF n] c by simp
  then have "r0 < 0x80" by simp
  from next_ascii_rune[OF n this] r0 obtain c0 t where
    s: "drop (pos p) (inp p) = c0 # t" "(of_char c0 :: nat) = BACKSLASH"
      "drop (pos p1) (inp p) = t" "inp p1 = inp p"
    by blast
  have same: "inp p2 = inp p1" "pos p2 = pos p1" by (rule peek_same(1,2)[OF k])+
  have "r' = cur p2" by (rule next_pos(2)[OF n2])
  also have "\<dots> = r" using peek_cur[OF k] by simp
  finally have r': "r' = r" .
  with r have "r' < 0x80" by auto
  from next_ascii_rune[OF n2 this] obtain d t' where
    s2: "drop (pos p2) (inp p2) = d # t'" "drop (pos p3) (inp p2) = t'" "inp p3 = inp p2"
    by blast
  have t: "t = d # t'" using s(3,4) s2(1) same by simp
  have c0: "c0 = CHR 0x5C" using s(2) by (simp add: backslash_rune)
  have nq: "\<not> quantifier c0" using s(2) by (simp add: quantifier_rune)
  have "stacked_from q (drop (pos p) (inp p)) = stacked_from False t'"
    using s(1) t c0 nq by simp
  moreover have "drop (pos p') (inp p) = t'" using s2(2) same s(4) p' by simp
  moreover have "inp p' = inp p" using s2(3) same s(4) p' by simp
  ultimately show ?thesis by (simp add: carries_def)
qed

lemma parseMeta_quantifier:
  assumes run: "parseMeta p h t = Inr (e, p', h')"
    and c: "cur p = QMARK \<or> cur p = PLUS \<or> cur p = STAR"
  shows "carries False p True p'"
proof -
  obtain mc p1 where n: "parser_next p = (mc, p1)" by (cases "parser_next p")
  with run have "p' = p1"
    by (auto simp: parseMeta_def Let_def split: sum.splits prod.splits if_splits)
  moreover have "mc = cur p" by (rule next_pos(2)[OF n])
  ultimately show ?thesis using next_quantifier[OF n] c by simp
qed


lemma clause_st_step:
  assumes c: "clause_st n" and pi: "pipe_st n" and tm: "term_st n"
  shows "clause_st (Suc n)"
  unfolding clause_st_def
proof (intro allI impI)
  fix p :: parser and h :: heap and e e' :: expr and p' :: parser and h' :: heap
  assume run: "parseClause (Suc n) p h e = Inr (e', p', h')"
  obtain r p1 where pk: "peek p = (r, p1)" by (cases "peek p")
  have c1: "carries True p True p1" by (rule carries_peek[OF pk])
  have cu: "cur p1 = r" using peek_cur[OF pk] by simp
  consider (stop) "r = RuneError \<or> r = RPAREN"
    | (pipe) "r \<noteq> RuneError" "r \<noteq> RPAREN" "r = PIPE"
    | (trm) "r \<noteq> RuneError" "r \<noteq> RPAREN" "r \<noteq> PIPE"
    by blast
  then show "carries True p True p'"
  proof cases
    case stop
    then have "p' = p1" using run pk by (auto simp: parseClause.simps)
    with c1 show ?thesis by simp
  next
    case pipe
    from run pk pipe obtain e2 p2 h2 where
      r1: "parsePipe n p1 h e = Inr (e2, p2, h2)" and r2: "parseClause n p2 h2 e2 = Inr (e', p', h')"
      by (auto simp: parseClause.simps split: sum.splits)
    have c2: "carries True p1 True p2"
      using pi cu pipe(3) r1 unfolding pipe_st_def by blast
    have c3: "carries True p2 True p'"
      using c r2 unfolding clause_st_def by blast
    show ?thesis by (rule carries_trans[OF c1 carries_trans[OF c2 c3]])
  next
    case trm
    from run pk trm obtain nx p2 h2 e3 h3 where
      r1: "parseTerm n p1 h = Inr (nx, p2, h2)" and r2: "parseClause n p2 h3 e3 = Inr (e', p', h')"
      by (auto simp: parseClause.simps split: sum.splits)
    have c2: "carries True p1 True p2"
      using tm r1 unfolding term_st_def by blast
    have c3: "carries True p2 True p'"
      using c r2 unfolding clause_st_def by blast
    show ?thesis by (rule carries_trans[OF c1 carries_trans[OF c2 c3]])
  qed
qed

lemma pipe_st_step:
  assumes c: "clause_st n"
  shows "pipe_st (Suc n)"
  unfolding pipe_st_def
proof (intro allI impI)
  fix p :: parser and h :: heap and lhs e' :: expr and p' :: parser and h' :: heap
  assume cu: "cur p = PIPE"
    and run: "parsePipe (Suc n) p h lhs = Inr (e', p', h')"
  obtain r0 p1 where nx: "parser_next p = (r0, p1)" by (cases "parser_next p")
  have "r0 = PIPE" using next_pos(2)[OF nx] cu by simp
  then have "carries True p False p1" using next_plain[OF nx] by simp
  then have c1: "carries True p True p1" by (rule carries_weaken)
  from run nx obtain e2 h2 where r1: "parseClause n p1 h no_expr = Inr (e2, p', h2)"
    by (auto simp: parsePipe.simps new_node_def split: if_splits sum.splits prod.splits)
  have "carries True p1 True p'"
    using c r1 unfolding clause_st_def by blast
  with c1 show "carries True p True p'" by (rule carries_trans)
qed

lemma term_st_step:
  assumes sb: "subexp_st n"
  shows "term_st (Suc n)"
  unfolding term_st_def
proof (intro allI impI)
  fix p :: parser and h :: heap and e' :: expr and p' :: parser and h' :: heap
  assume run: "parseTerm (Suc n) p h = Inr (e', p', h')"
  obtain r p1 where pk: "peek p = (r, p1)" by (cases "peek p")
  have c1: "carries True p True p1" by (rule carries_peek[OF pk])
  have cu: "cur p1 = r" using peek_cur[OF pk] by simp
  let ?atom = "if r = LPAREN then parseSubexp n p1 h
            else if r = BACKSLASH then parseEscape p1 h
            else if r = DOT then parseDot p1 h
            else parseLiteral p1 h"
  from run pk have nq: "r \<noteq> QMARK" "r \<noteq> PLUS" "r \<noteq> STAR"
    by (auto simp: parseTerm.simps split: if_splits)
  from run pk obtain e2 p2 h2 where at: "?atom = Inr (e2, p2, h2)"
    and rest: "(let (r2, p3) = peek p2 in
              if r2 = QMARK \<or> r2 = PLUS \<or> r2 = STAR then parseMeta p3 h2 e2
              else Inr (e2, p3, h2)) = Inr (e', p', h')"
    by (auto simp: parseTerm.simps split: if_splits sum.splits)
  have c2: "carries True p1 False p2"
  proof -
    have "parseSubexp n p1 h = Inr (e2, p2, h2) \<Longrightarrow> r = LPAREN \<Longrightarrow> ?thesis"
      using sb cu unfolding subexp_st_def by blast
    moreover have "parseEscape p1 h = Inr (e2, p2, h2) \<Longrightarrow> r = BACKSLASH \<Longrightarrow> ?thesis"
      using parseEscape_plain[of p1 h e2 p2 h2 True] cu by simp
    moreover have "parseDot p1 h = Inr (e2, p2, h2) \<Longrightarrow> r = DOT \<Longrightarrow> ?thesis"
      using parseDot_plain[of p1 h e2 p2 h2 True] cu by simp
    moreover have "parseLiteral p1 h = Inr (e2, p2, h2) \<Longrightarrow> r \<noteq> BACKSLASH \<Longrightarrow> ?thesis"
      using parseLiteral_plain[of p1 h e2 p2 h2 True] cu nq by simp
    ultimately show ?thesis using at by (auto split: if_splits)
  qed
  obtain r2 p3 where pk2: "peek p2 = (r2, p3)" by (cases "peek p2")
  have c3: "carries False p2 False p3" by (rule carries_peek[OF pk2])
  have "carries False p3 True p'"
  proof (cases "r2 = QMARK \<or> r2 = PLUS \<or> r2 = STAR")
    case True
    then have m: "parseMeta p3 h2 e2 = Inr (e', p', h')" using rest pk2 by simp
    have "cur p3 = QMARK \<or> cur p3 = PLUS \<or> cur p3 = STAR" using peek_cur[OF pk2] True by auto
    from parseMeta_quantifier[OF m this] show ?thesis .
  next
    case False
    then have "p' = p3" using rest pk2 by simp
    then show ?thesis by (simp add: carries_def stacked_from_mono)
  qed
  with c1 c2 c3 show "carries True p True p'" by (meson carries_trans)
qed

lemma subexp_st_step:
  assumes c: "clause_st n"
  shows "subexp_st (Suc n)"
  unfolding subexp_st_def
proof (intro allI impI)
  fix p :: parser and h :: heap and e' :: expr and p' :: parser and h' :: heap
  assume cu: "cur p = LPAREN"
    and run: "parseSubexp (Suc n) p h = Inr (e', p', h')"
  obtain r0 p1 where nx: "parser_next p = (r0, p1)" by (cases "parser_next p")
  have "r0 = LPAREN" using next_pos(2)[OF nx] cu by simp
  then have "carries True p False p1" using next_plain[OF nx] by simp
  then have c1: "carries True p True p1" by (rule carries_weaken)
  from run nx obtain e2 p2 h2 where r1: "parseClause n p1 h no_expr = Inr (e2, p2, h2)"
    and rest: "(let (r, p3) = parser_next p2;
              (lp, h3) = new_node h2 LeftParenNode;
              (rp, h4) = new_node h3 RightParenNode
          in case concat_expr h4 \<lparr>start = Some lp, fin = Some lp\<rparr> e2 of
               Inl f \<Rightarrow> Inl f
             | Inr (e1, h5) \<Rightarrow>
                 (case concatNode h5 e1 (Some rp) of
                    Inl f \<Rightarrow> Inl f
                  | Inr (e2, h6) \<Rightarrow>
                      if r \<noteq> RPAREN then Inl (Err (UnterminatedSubexp (pos p)))
                      else Inr (e2, p3, h6))) = Inr (e', p', h')"
    by (auto simp: parseSubexp.simps split: sum.splits)
  have c2: "carries True p1 True p2"
    using c r1 unfolding clause_st_def by blast
  obtain r p3 where nx2: "parser_next p2 = (r, p3)" by (cases "parser_next p2")
  from rest nx2 have r: "r = RPAREN" and p': "p' = p3"
    by (auto simp: new_node_def split: sum.splits if_splits)
  have "carries True p2 False p3" using next_plain[OF nx2] r by simp
  with c1 c2 p' show "carries True p False p'" by (meson carries_trans)
qed

lemma parser_st: "clause_st n \<and> pipe_st n \<and> term_st n \<and> subexp_st n"
proof (induction n)
  case 0
  show ?case
    by (simp add: clause_st_def pipe_st_def term_st_def subexp_st_def
        parseClause.simps parsePipe.simps parseTerm.simps parseSubexp.simps)
next
  case (Suc n)
  then show ?case
    using clause_st_step pipe_st_step term_st_step subexp_st_step by blast
qed

text \<open>
  A pattern with a stacked quantifier never compiles.
\<close>

theorem stacked_never_compiles:
  assumes "stacked p"
  shows "Compile p \<noteq> Inr re"
proof
  assume co: "Compile p = Inr re"
  let ?p0 = "\<lparr>inp = p, pos = 0, width = 0\<rparr>"
  from co obtain e p1 h where pc: "parseClause (fuel_of p) ?p0 [] no_expr = Inr (e, p1, h)"
    by (auto simp: Compile_def parse_def split: sum.splits)
  from co pc have len: "pos p1 = length p"
    by (auto simp: Compile_def parse_def Let_def split: sum.splits if_splits prod.splits)
  have cc: "clause_st (fuel_of p)" using parser_st by blast
  have "carries True ?p0 True p1"
    using cc pc unfolding clause_st_def by blast
  moreover have "stacked_from True p" using assms by (simp add: stacked_def stacked_from_mono)
  ultimately have "stacked_from True (drop (pos p1) p)" by (simp add: carries_def)
  with len show False by simp
qed

lemma concat_expr_total:
  assumes e: "expr_wf h e" and nx: "expr_wf h nx"
  shows "\<exists>e' h'. concat_expr h e nx = Inr (e', h')"
proof (cases "isEmpty e \<or> isEmpty nx")
  case True
  then show ?thesis by (auto simp: concat_expr_def)
next
  case False
  with e obtain b where "fin e = Some b" "b < length h"
    by (auto simp: expr_wf_def in_arena_def)
  with False show ?thesis by (simp add: concat_expr_def)
qed

lemma concatNode_total:
  assumes "expr_wf h e" "n < length h"
  shows "\<exists>e' h'. concatNode h e (Some n) = Inr (e', h')"
  unfolding concatNode_def
  using assms(2) by (intro concat_expr_total[OF assms(1)]) (simp add: expr_wf_def in_arena_def)

lemma no_pipe_cur:
  assumes "no_pipe p"
  shows "cur p \<noteq> PIPE"
proof
  assume c: "cur p = PIPE"
  then have "fst (DecodeRuneInString (drop (pos p) (inp p))) < 0x80" by (simp add: cur_def)
  from decode_ascii_rune[OF this] c obtain b t where
    s: "drop (pos p) (inp p) = b # t" "(of_char b :: nat) = PIPE"
    by (auto simp: cur_def)
  from s(2) have "(of_char b :: nat) = of_char (CHR ''|'')" by simp
  then have "b = CHR ''|''" by (simp only: of_char_eq_iff)
  moreover have "b \<in> set (inp p)" using s(1) by (metis in_set_dropD list.set_intros(1))
  ultimately show False using assms by (simp add: no_pipe_def)
qed

lemma no_pipe_carries: "carries q p q' p' \<Longrightarrow> no_pipe p \<Longrightarrow> no_pipe p'"
  by (simp add: carries_def no_pipe_def)

lemma no_pipe_peek: "peek p = (r, p1) \<Longrightarrow> no_pipe p \<Longrightarrow> no_pipe p1"
  using peek_same(1) by (simp add: no_pipe_def)

lemma no_pipe_next: "parser_next p = (r, p1) \<Longrightarrow> no_pipe p \<Longrightarrow> no_pipe p1"
  using next_pos(1) by (simp add: no_pipe_def)

lemma parseMeta_no_panic:
  assumes w: "wf_heap h" and t: "in_arena h t"
  shows "parseMeta p h t \<noteq> Inl (Panic x)"
proof -
  obtain mc p1 where nx: "parser_next p = (mc, p1)" by (cases "parser_next p")
  from t obtain a where a: "start t = Some a" "a < length h" by (auto simp: in_arena_def)
  have cn: "\<exists>e' h'. concatNode g t (Some (length h)) = Inr (e', h')"
    if "length g = Suc (length h)" "expr_wf g t" for g
    using that by (intro concatNode_total) simp_all
  consider (plus) "mc = PLUS" | (star) "mc \<noteq> PLUS" "mc = STAR"
    | (qmark) "mc \<noteq> PLUS" "mc \<noteq> STAR" "mc = QMARK"
    | (other) "mc \<noteq> PLUS" "mc \<noteq> STAR" "mc \<noteq> QMARK"
    by blast
  then show ?thesis
  proof cases
    case plus
    let ?g = "(h @ [\<lparr>kind = PlusNode, epsilons = [], nxt = None\<rparr>])
        [length h := \<lparr>kind = PlusNode, epsilons = [start t], nxt = None\<rparr>]"
    have "expr_wf ?g t" using t by (auto simp: expr_wf_def in_arena_def)
    with cn[of ?g] obtain e' h' where "concatNode ?g t (Some (length h)) = Inr (e', h')" by auto
    then show ?thesis using nx plus by (simp add: parseMeta_def new_node_def)
  next
    case star
    let ?g1 = "(h @ [\<lparr>kind = StarNode, epsilons = [], nxt = None\<rparr>])
        [length h := \<lparr>kind = StarNode, epsilons = [start t], nxt = None\<rparr>]"
    let ?g = "?g1[a := (?g1 ! a)\<lparr>epsilons := epsilons (?g1 ! a) @ [Some (length h)]\<rparr>]"
    have "expr_wf ?g t" using t by (auto simp: expr_wf_def in_arena_def)
    with cn[of ?g] obtain e' h' where "concatNode ?g t (Some (length h)) = Inr (e', h')" by auto
    then show ?thesis using nx star a by (simp add: parseMeta_def new_node_def)
  next
    case qmark
    let ?g1 = "h @ [\<lparr>kind = QmarkNode, epsilons = [], nxt = None\<rparr>]"
    let ?g = "?g1[a := (?g1 ! a)\<lparr>epsilons := epsilons (?g1 ! a) @ [Some (length h)]\<rparr>]"
    have "expr_wf ?g t" using t by (auto simp: expr_wf_def in_arena_def)
    with cn[of ?g] obtain e' h' where "concatNode ?g t (Some (length h)) = Inr (e', h')" by auto
    then show ?thesis using nx qmark a by (simp add: parseMeta_def new_node_def)
  next
    case other
    then show ?thesis using nx in_arena_not_empty[OF t]
      by (simp add: parseMeta_def concatNode_def concat_expr_def isEmpty_def no_expr_def)
  qed
qed


lemma clause_np_step:
  assumes c: "clause_np n" and tm: "term_np n"
  shows "clause_np (Suc n)"
  unfolding clause_np_def
proof (intro allI impI)
  fix p :: parser and h :: heap and e :: expr and x :: panic
  assume np: "no_pipe p" and w: "wf_heap h" and e: "expr_wf h e"
  obtain r p1 where pk: "peek p = (r, p1)" by (cases "peek p")
  have np1: "no_pipe p1" by (rule no_pipe_peek[OF pk np])
  have rp: "r \<noteq> PIPE" using no_pipe_cur[OF np1] peek_cur[OF pk] by simp
  show "parseClause (Suc n) p h e \<noteq> Inl (Panic x)"
  proof (cases "r = RuneError \<or> r = RPAREN")
    case True
    then show ?thesis using pk by (auto simp: parseClause.simps)
  next
    case False
    show ?thesis
    proof (cases "parseTerm n p1 h")
      case (Inl f)
      then have "f \<noteq> Panic x" using tm np1 w unfolding term_np_def by blast
      with Inl False rp pk show ?thesis by (simp add: parseClause.simps)
    next
      case (Inr res)
      obtain nx p2 h2 where res: "res = (nx, p2, h2)" by (cases res)
      have r1: "parseTerm n p1 h = Inr (nx, p2, h2)" using Inr res by simp
      have tw: "term_wf n" using parser_wf by blast
      have s1: "wf_heap h2 \<and> in_arena h2 nx \<and> length h \<le> length h2"
        using tw w r1 unfolding term_wf_def by blast
      have e2: "expr_wf h2 e" using e s1 by (auto intro: expr_wf_mono)
      have nx2: "expr_wf h2 nx" using s1 by (simp add: expr_wf_def)
      from concat_expr_total[OF e2 nx2] obtain e3 h3 where
        cc: "concat_expr h2 e nx = Inr (e3, h3)" by blast
      have s2: "wf_heap h3" "expr_wf h3 e3"
        using concat_expr_wf(1,2)[OF _ e2 nx2 cc] s1 by simp_all
      have ts: "term_st n" using parser_st by blast
      have "carries True p1 True p2" using ts r1 unfolding term_st_def by blast
      then have np2: "no_pipe p2" using np1 by (rule no_pipe_carries)
      have "parseClause n p2 h3 e3 \<noteq> Inl (Panic x)"
        using c np2 s2 unfolding clause_np_def by blast
      with r1 cc False rp pk show ?thesis by (simp add: parseClause.simps)
    qed
  qed
qed

lemma term_np_step:
  assumes sb: "subexp_np n"
  shows "term_np (Suc n)"
  unfolding term_np_def
proof (intro allI impI)
  fix p :: parser and h :: heap and x :: panic
  assume np: "no_pipe p" and w: "wf_heap h"
  obtain r p1 where pk: "peek p = (r, p1)" by (cases "peek p")
  have np1: "no_pipe p1" by (rule no_pipe_peek[OF pk np])
  let ?atom = "if r = LPAREN then parseSubexp n p1 h
            else if r = BACKSLASH then parseEscape p1 h
            else if r = DOT then parseDot p1 h
            else parseLiteral p1 h"
  show "parseTerm (Suc n) p h \<noteq> Inl (Panic x)"
  proof (cases "r = QMARK \<or> r = PLUS \<or> r = STAR")
    case True
    then show ?thesis using pk by (auto simp: parseTerm.simps)
  next
    case False
    show ?thesis
    proof (cases ?atom)
      case (Inl f)
      have "parseSubexp n p1 h \<noteq> Inl (Panic x)"
        using sb np1 w unfolding subexp_np_def by blast
      moreover have "parseEscape p1 h \<noteq> Inl (Panic x)"
        by (auto simp: parseEscape_def parseLiteral_def new_node_def split: prod.splits)
      moreover have "parseDot p1 h \<noteq> Inl (Panic x)"
        by (auto simp: parseDot_def new_node_def split: prod.splits)
      moreover have "parseLiteral p1 h \<noteq> Inl (Panic x)"
        by (auto simp: parseLiteral_def new_node_def split: prod.splits)
      ultimately have "f \<noteq> Panic x" using Inl by (auto split: if_splits)
      moreover have "parseTerm (Suc n) p h = Inl f"
        using Inl False pk by (simp add: parseTerm.simps)
      ultimately show ?thesis by simp
    next
      case (Inr res)
      obtain e2 p2 h2 where res: "res = (e2, p2, h2)" by (cases res)
      have at: "?atom = Inr (e2, p2, h2)" using Inr res by simp
      have sw: "subexp_wf n" using parser_wf by blast
      have s1: "wf_heap h2 \<and> in_arena h2 e2 \<and> length h \<le> length h2"
      proof -
        have "parseSubexp n p1 h = Inr (e2, p2, h2) \<Longrightarrow> ?thesis"
          using sw w unfolding subexp_wf_def by blast
        then show ?thesis
          using at parseEscape_wf[OF w] parseDot_wf[OF w] parseLiteral_wf[OF w]
          by (auto split: if_splits)
      qed
      obtain r2 p3 where pk2: "peek p2 = (r2, p3)" by (cases "peek p2")
      have m: "parseMeta p3 h2 e2 \<noteq> Inl (Panic x)"
        using parseMeta_no_panic s1 by blast
      have "parseTerm (Suc n) p h =
          (if r2 = QMARK \<or> r2 = PLUS \<or> r2 = STAR then parseMeta p3 h2 e2 else Inr (e2, p3, h2))"
        using at False pk pk2 by (simp add: parseTerm.simps)
      with m show ?thesis by simp
    qed
  qed
qed

lemma subexp_np_step:
  assumes c: "clause_np n"
  shows "subexp_np (Suc n)"
  unfolding subexp_np_def
proof (intro allI impI)
  fix p :: parser and h :: heap and x :: panic
  assume np: "no_pipe p" and w: "wf_heap h"
  obtain r0 p1 where nx: "parser_next p = (r0, p1)" by (cases "parser_next p")
  have np1: "no_pipe p1" by (rule no_pipe_next[OF nx np])
  show "parseSubexp (Suc n) p h \<noteq> Inl (Panic x)"
  proof (cases "parseClause n p1 h no_expr")
    case (Inl f)
    then have "f \<noteq> Panic x" using c np1 w expr_wf_empty unfolding clause_np_def by blast
    with Inl nx show ?thesis by (simp add: parseSubexp.simps)
  next
    case (Inr res)
    obtain e2 p2 h2 where res: "res = (e2, p2, h2)" by (cases res)
    have r1: "parseClause n p1 h no_expr = Inr (e2, p2, h2)" using Inr res by simp
    have cw: "clause_wf n" using parser_wf by blast
    have e0: "expr_wf h no_expr" by (rule expr_wf_empty)
    have s1: "wf_heap h2 \<and> expr_wf h2 e2 \<and> length h \<le> length h2"
      using cw w e0 r1 unfolding clause_wf_def by blast
    obtain r p3 where nx2: "parser_next p2 = (r, p3)" by (cases "parser_next p2")
    obtain lp h3 where n3: "new_node h2 LeftParenNode = (lp, h3)" by (cases "new_node h2 LeftParenNode")
    obtain rp h4 where n4: "new_node h3 RightParenNode = (rp, h4)" by (cases "new_node h3 RightParenNode")
    have w2: "wf_heap h2" using s1 by simp
    note m3 = new_node_wf[OF w2 n3]
    note m4 = new_node_wf[OF m3(1) n4]
    have lpw: "expr_wf h4 \<lparr>start = Some lp, fin = Some lp\<rparr>"
      using m3 m4 by (simp add: expr_wf_def in_arena_def)
    have e4: "expr_wf h4 e2" using s1 m3 m4 by (auto intro: expr_wf_mono)
    from concat_expr_total[OF lpw e4] obtain e1 h5 where
      r2: "concat_expr h4 \<lparr>start = Some lp, fin = Some lp\<rparr> e2 = Inr (e1, h5)" by blast
    note c5 = concat_expr_wf[OF m4(1) lpw e4 r2]
    have rp5: "rp < length h5" using m4 c5(3) by simp
    from concatNode_total[OF c5(2) rp5] obtain e6 h6 where
      r3: "concatNode h5 e1 (Some rp) = Inr (e6, h6)" by blast
    show ?thesis using r1 nx nx2 n3 n4 r2 r3 by (simp add: parseSubexp.simps)
  qed
qed

lemma parser_np: "clause_np n \<and> term_np n \<and> subexp_np n"
proof (induction n)
  case 0
  show ?case
    by (simp add: clause_np_def term_np_def subexp_np_def
        parseClause.simps parseTerm.simps parseSubexp.simps)
next
  case (Suc n)
  then show ?case
    using clause_np_step term_np_step subexp_np_step by blast
qed

text \<open>
  \<^verbatim>\<open>Compile\<close> does not panic on a pattern without the byte \<^verbatim>\<open>|\<close>; so for such a pattern
  with a stacked quantifier it returns an error.
\<close>

theorem no_alternation_no_panic:
  assumes "CHR ''|'' \<notin> set p"
  shows "Compile p \<noteq> Inl (Panic x)"
proof -
  let ?p0 = "\<lparr>inp = p, pos = 0, width = 0\<rparr>"
  have np: "no_pipe ?p0" using assms by (simp add: no_pipe_def)
  have e0: "expr_wf [] no_expr" by (rule expr_wf_empty)
  have cn: "clause_np (fuel_of p)" using parser_np by blast
  have c: "parseClause (fuel_of p) ?p0 [] no_expr \<noteq> Inl (Panic x)"
    using cn np wf_heap_Nil e0 unfolding clause_np_def by blast
  show ?thesis
  proof (cases "parseClause (fuel_of p) ?p0 [] no_expr")
    case (Inl f)
    with c show ?thesis by (auto simp: Compile_def parse_def)
  next
    case (Inr res)
    obtain e p1 h where res: "res = (e, p1, h)" by (cases res)
    have pc: "parseClause (fuel_of p) ?p0 [] no_expr = Inr (e, p1, h)" using Inr res by simp
    have cw: "clause_wf (fuel_of p)" using parser_wf by blast
    have s1: "wf_heap h \<and> expr_wf h e"
      using cw wf_heap_Nil e0 pc unfolding clause_wf_def by blast
    obtain t h1 where nn: "new_node h TerminalNode = (t, h1)" by (cases "new_node h TerminalNode")
    have w: "wf_heap h" using s1 by simp
    note m = new_node_wf[OF w nn]
    have e1: "expr_wf h1 e" using s1 m by (auto intro: expr_wf_mono)
    have t1: "t < length h1" using m by simp
    from concatNode_total[OF e1 t1] obtain e' h2 where
      "concatNode h1 e (Some t) = Inr (e', h2)" by blast
    with pc nn show ?thesis
      by (auto simp: Compile_def parse_def Let_def split: prod.splits)
  qed
qed

theorem stacked_is_error:
  assumes "stacked p" "CHR ''|'' \<notin> set p"
  shows "\<exists>e. Compile p = Inl (Err e)"
proof (cases "Compile p")
  case (Inl f)
  show ?thesis
  proof (cases f)
    case (Err e)
    with Inl show ?thesis by simp
  next
    case (Panic x)
    with Inl no_alternation_no_panic[OF assms(2)] show ?thesis by simp
  next
    case OutOfFuel
    with Inl Compile_total show ?thesis by simp
  qed
next
  case (Inr re)
  with stacked_never_compiles[OF assms(1), of re] show ?thesis by simp
qed

lemma stacked_from_pair:
  assumes "quantifier q1" "quantifier q2"
  shows "stacked_from b (q1 # q2 # rest)"
  using assms by simp

lemma stacked_from_after_term:
  assumes c: "c \<noteq> CHR 0x5C" and q: "quantifier q1" "quantifier q2"
  shows "stacked_from b (pre @ c # q1 # q2 # rest)"
proof (induction "length pre" arbitrary: pre b rule: less_induct)
  case less
  show ?case
  proof (cases pre)
    case Nil
    then show ?thesis using c q by simp
  next
    case (Cons d pre')
    show ?thesis
    proof (cases "d = CHR 0x5C")
      case False
      have "stacked_from b' (pre' @ c # q1 # q2 # rest)" for b'
        using less[of pre' b'] Cons by simp
      then show ?thesis using Cons False by simp
    next
      case True
      then have nq: "\<not> quantifier d" by (simp add: quantifier_def)
      show ?thesis
      proof (cases pre')
        case Nil
        then show ?thesis using Cons True nq q by simp
      next
        case (Cons d' pre'')
        have "stacked_from False (pre'' @ c # q1 # q2 # rest)"
          using less[of pre'' False] Cons \<open>pre = d # pre'\<close> by simp
        then show ?thesis using Cons \<open>pre = d # pre'\<close> True nq by simp
      qed
    qed
  qed
qed

text \<open>
  The last byte \<open>c\<close> of a term is never a backslash. So wherever a term is followed by two
  quantifier characters, whatever comes before and after, the pattern has a stacked
  quantifier: it never compiles, and \<^verbatim>\<open>Compile\<close> returns an error if it has no \<^verbatim>\<open>|\<close>.
\<close>

theorem stacked_after_term:
  assumes "c \<noteq> CHR 0x5C" "quantifier q1" "quantifier q2"
  shows "stacked (pre @ c # q1 # q2 # rest)"
  unfolding stacked_def by (rule stacked_from_after_term[OF assms])

theorem quantifier_after_quantified_term:
  assumes "c \<noteq> CHR 0x5C" "quantifier q1" "quantifier q2"
  shows "Compile (pre @ c # q1 # q2 # rest) \<noteq> Inr re"
    and "CHR ''|'' \<notin> set pre \<Longrightarrow> c \<noteq> CHR ''|'' \<Longrightarrow> CHR ''|'' \<notin> set rest
      \<Longrightarrow> \<exists>e. Compile (pre @ c # q1 # q2 # rest) = Inl (Err e)"
proof -
  have s: "stacked (pre @ c # q1 # q2 # rest)" by (rule stacked_after_term[OF assms])
  show "Compile (pre @ c # q1 # q2 # rest) \<noteq> Inr re" by (rule stacked_never_compiles[OF s])
  assume "CHR ''|'' \<notin> set pre" "c \<noteq> CHR ''|''" "CHR ''|'' \<notin> set rest"
  then have "CHR ''|'' \<notin> set (pre @ c # q1 # q2 # rest)"
    using assms(2,3) by (auto simp: quantifier_def)
  from stacked_is_error[OF s this] show "\<exists>e. Compile (pre @ c # q1 # q2 # rest) = Inl (Err e)" .
qed

lemma stacked_examples:
  "stacked ''a**''" "stacked ''(a)+?''" "stacked ''.*+''"
  "stacked [CHR 0x5C, CHR 0x5C, CHR ''*'', CHR ''*'']"
  "\<not> stacked [CHR 0x5C, CHR ''*'', CHR ''*'']"
  "\<not> stacked ''a*b+''"
  by (simp_all add: stacked_def quantifier_def)

lemma stacked_errors:
  "Compile ''a**'' = Inl (Err (InvalidCharacter STAR 2))"
  "Compile ''(a)**'' = Inl (Err (InvalidCharacter STAR 4))"
  "Compile ''.**'' = Inl (Err (InvalidCharacter STAR 2))"
  by (simp_all add: run_parser)

text \<open>
  Claim C7 says that \<^verbatim>\<open>Compile\<close> returns an error for \<^verbatim>\<open>a**\<close> and for every pattern in
  which a quantifier follows a quantified term. No such pattern compiles, and \<^verbatim>\<open>Compile\<close>
  returns an error for \<^verbatim>\<open>a**\<close> and for every such pattern without \<^verbatim>\<open>|\<close>. The pattern
  \<^verbatim>\<open>x|)a**\<close> has the stacked quantifier \<^verbatim>\<open>a**\<close>, but the right operand of its \<^verbatim>\<open>|\<close> is
  empty: \<^verbatim>\<open>Compile\<close> panics as for \<^verbatim>\<open>a|\<close>, before the parser comes to the quantifiers.
\<close>

theorem compile_stacked_after_empty_operand_panics:
  "stacked ''x|)a**'' \<and> Compile ''x|)a**'' = Inl (Panic NilDereference)"
  by (simp add: run_parser stacked_def quantifier_def)

section \<open>Quantifiers\<close>

lemma runes_replicate_ascii:
  "(of_char c :: nat) < 0x80 \<Longrightarrow> runes (replicate n c) = replicate n (of_char c)"
  by (induction n) (simp_all add: runes_Nil runes_Cons)

lemma compile_a_plus:
  "Compile ''a+'' =
    Inr \<lparr>rstart = Some 0, rterm = Some 2, pattern = ''a+'',
         nodes = [\<lparr>kind = LiteralNode 97, epsilons = [], nxt = Some 1\<rparr>,
                  \<lparr>kind = PlusNode, epsilons = [Some 0, Some 2], nxt = None\<rparr>,
                  \<lparr>kind = TerminalNode, epsilons = [], nxt = None\<rparr>]\<rparr>"
  by (simp add: run_parser)

lemma compile_a_star:
  "Compile ''a*'' =
    Inr \<lparr>rstart = Some 0, rterm = Some 2, pattern = ''a*'',
         nodes = [\<lparr>kind = LiteralNode 97, epsilons = [Some 1], nxt = Some 1\<rparr>,
                  \<lparr>kind = StarNode, epsilons = [Some 0, Some 2], nxt = None\<rparr>,
                  \<lparr>kind = TerminalNode, epsilons = [], nxt = None\<rparr>]\<rparr>"
  by (simp add: run_parser)

lemma compile_a_qmark_b:
  "Compile ''a?b'' =
    Inr \<lparr>rstart = Some 0, rterm = Some 3, pattern = ''a?b'',
         nodes = [\<lparr>kind = LiteralNode 97, epsilons = [Some 1], nxt = Some 1\<rparr>,
                  \<lparr>kind = QmarkNode, epsilons = [Some 2], nxt = None\<rparr>,
                  \<lparr>kind = LiteralNode 98, epsilons = [], nxt = Some 3\<rparr>,
                  \<lparr>kind = TerminalNode, epsilons = [], nxt = None\<rparr>]\<rparr>"
  by (simp add: run_parser)

text \<open>The loop of a quantified literal: nodes 0 (the literal), 1 (the junction), 2 (Terminal).\<close>

lemma loop_all_live:
  assumes ord: "enumerates ord"
    and act: "active h r 0" "\<not> active h r 1" "\<not> active h r 2"
    and cl: "add h {} (nxt (h ! 0)) = Inr {0, 1, 2}"
  shows "match_loop ord h (Some 2) {0, 1, 2} (replicate n r) = Inr True"
proof (induction n)
  case 0
  show ?case by simp
next
  case (Suc n)
  have "step_nodes h r (ord {0, 1, 2}) {} = add h {} (nxt (h ! 0))"
    using step_ord_one[OF ord, of "{0, 1, 2}" 0 h r "{}"] act by simp
  with cl Suc show ?case by simp
qed

text \<open>
  Claim C2. The pattern \<^verbatim>\<open>a+\<close> rejects the empty input and accepts \<open>n\<close> times \<^verbatim>\<open>a\<close> for
  every \<open>n \<ge> 1\<close>; the pattern \<^verbatim>\<open>a*\<close> accepts \<open>n\<close> times \<^verbatim>\<open>a\<close> for every \<open>n\<close>; the pattern
  \<^verbatim>\<open>a?b\<close> accepts \<^verbatim>\<open>b\<close> and \<^verbatim>\<open>ab\<close> and rejects \<^verbatim>\<open>aab\<close>.
\<close>

theorem quantifier_semantics:
  assumes ord: "enumerates ord"
  shows "(\<exists>re. Compile ''a+'' = Inr re \<and> MatchString ord re [] = Inr False
            \<and> (\<forall>n\<ge>1. MatchString ord re (replicate n CHR ''a'') = Inr True))
       \<and> (\<exists>re. Compile ''a*'' = Inr re
            \<and> (\<forall>n. MatchString ord re (replicate n CHR ''a'') = Inr True))
       \<and> (\<exists>re. Compile ''a?b'' = Inr re \<and> MatchString ord re ''b'' = Inr True
            \<and> MatchString ord re ''ab'' = Inr True \<and> MatchString ord re ''aab'' = Inr False)"
proof (intro conjI)
  let ?h = "[\<lparr>kind = LiteralNode 97, epsilons = [], nxt = Some 1\<rparr>,
             \<lparr>kind = PlusNode, epsilons = [Some 0, Some 2], nxt = None\<rparr>,
             \<lparr>kind = TerminalNode, epsilons = [], nxt = None\<rparr>]"
  let ?re = "\<lparr>rstart = Some 0, rterm = Some 2, pattern = ''a+'', nodes = ?h\<rparr>"
  have s3: "{2, 0, 1} = {0, 1, 2::nat}" by auto
  have cl: "add ?h {} (nxt (?h ! 0)) = Inr {0, 1, 2}"
    by (auto simp: add_def)
  have c0: "add ?h {} (Some 0) = Inr {0}"
    by (simp add: add_def)
  have lp: "match_loop ord ?h (Some 2) {0, 1, 2} (replicate n 97) = Inr True" for n
    by (rule loop_all_live[OF ord _ _ _ cl]) (simp_all add: active_def)
  have st: "step_nodes ?h 97 (ord {0}) {} = Inr {0, 1, 2}"
    using step_ord_one[OF ord, of "{0}" 0 ?h 97 "{}"] cl by (auto simp: active_def)
  have rej: "MatchString ord ?re [] = Inr False"
    using c0 by (simp add: MatchString_def runes_Nil)
  have acc: "MatchString ord ?re (replicate n CHR ''a'') = Inr True" if "1 \<le> n" for n
  proof -
    from that obtain m where "n = Suc m" by (cases n) auto
    then have "runes (replicate n CHR ''a'') = 97 # replicate m 97"
      by (simp add: runes_replicate_ascii del: replicate_Suc) simp
    then show ?thesis
      using c0 st lp[of m] by (simp add: MatchString_def)
  qed
  show "\<exists>re. Compile ''a+'' = Inr re \<and> MatchString ord re [] = Inr False
            \<and> (\<forall>n\<ge>1. MatchString ord re (replicate n CHR ''a'') = Inr True)"
    using rej acc by (simp add: compile_a_plus)
next
  let ?h = "[\<lparr>kind = LiteralNode 97, epsilons = [Some 1], nxt = Some 1\<rparr>,
             \<lparr>kind = StarNode, epsilons = [Some 0, Some 2], nxt = None\<rparr>,
             \<lparr>kind = TerminalNode, epsilons = [], nxt = None\<rparr>]"
  let ?re = "\<lparr>rstart = Some 0, rterm = Some 2, pattern = ''a*'', nodes = ?h\<rparr>"
  have s3: "{2, 0, 1} = {0, 1, 2::nat}" "{2, 1, 0} = {0, 1, 2::nat}" by auto
  have cl: "add ?h {} (nxt (?h ! 0)) = Inr {0, 1, 2}"
    by (auto simp: add_def)
  have c0: "add ?h {} (Some 0) = Inr {0, 1, 2}"
    by (auto simp: add_def)
  have lp: "match_loop ord ?h (Some 2) {0, 1, 2} (replicate n 97) = Inr True" for n
    by (rule loop_all_live[OF ord _ _ _ cl]) (simp_all add: active_def)
  have acc: "MatchString ord ?re (replicate n CHR ''a'') = Inr True" for n
    using c0 lp[of n] by (simp add: MatchString_def runes_replicate_ascii)
  show "\<exists>re. Compile ''a*'' = Inr re
            \<and> (\<forall>n. MatchString ord re (replicate n CHR ''a'') = Inr True)"
    using acc by (simp add: compile_a_star)
next
  let ?h = "[\<lparr>kind = LiteralNode 97, epsilons = [Some 1], nxt = Some 1\<rparr>,
             \<lparr>kind = QmarkNode, epsilons = [Some 2], nxt = None\<rparr>,
             \<lparr>kind = LiteralNode 98, epsilons = [], nxt = Some 3\<rparr>,
             \<lparr>kind = TerminalNode, epsilons = [], nxt = None\<rparr>]"
  let ?re = "\<lparr>rstart = Some 0, rterm = Some 3, pattern = ''a?b'', nodes = ?h\<rparr>"
  have c0: "add ?h {} (Some 0) = Inr {2, 1, 0}"
    by (simp add: add_def)
  have sa: "step_nodes ?h 97 (ord {2, 1, 0}) {} = Inr {2, 1}"
    using step_ord_one[OF ord, of "{2, 1, 0}" 0 ?h 97 "{}"]
    by (auto simp: active_def add_def)
  have sb: "step_nodes ?h 98 (ord {2, 1, 0}) {} = Inr {3}"
    using step_ord_one[OF ord, of "{2, 1, 0}" 2 ?h 98 "{}"]
    by (auto simp: active_def add_def)
  have sb2: "step_nodes ?h 98 (ord {2, 1}) {} = Inr {3}"
    using step_ord_one[OF ord, of "{2, 1}" 2 ?h 98 "{}"]
    by (auto simp: active_def add_def)
  have sa2: "step_nodes ?h 97 (ord {2, 1}) {} = Inr {}"
    using step_ord_none[OF ord, of "{2, 1}" ?h 97 "{}"]
    by (auto simp: active_def)
  show "\<exists>re. Compile ''a?b'' = Inr re \<and> MatchString ord re ''b'' = Inr True
            \<and> MatchString ord re ''ab'' = Inr True \<and> MatchString ord re ''aab'' = Inr False"
    using c0 sa sb sb2 sa2
    by (auto simp: compile_a_qmark_b MatchString_def runes_Nil runes_Cons)
qed

theorem quantifier_semantics_witness:
  "enumerates sorted_list_of_set
     \<and> (\<exists>re. Compile ''a+'' = Inr re \<and> MatchString sorted_list_of_set re [] = Inr False
            \<and> (1::nat) \<le> 3 \<and> MatchString sorted_list_of_set re (replicate 3 CHR ''a'') = Inr True)
     \<and> (\<exists>re. Compile ''a*'' = Inr re
            \<and> MatchString sorted_list_of_set re (replicate 0 CHR ''a'') = Inr True
            \<and> MatchString sorted_list_of_set re (replicate 2 CHR ''a'') = Inr True)
     \<and> (\<exists>re. Compile ''a?b'' = Inr re \<and> MatchString sorted_list_of_set re ''b'' = Inr True
            \<and> MatchString sorted_list_of_set re ''ab'' = Inr True
            \<and> MatchString sorted_list_of_set re ''aab'' = Inr False)"
proof -
  have e: "enumerates sorted_list_of_set" by (simp add: enumerates_def)
  from quantifier_semantics[OF e] e show ?thesis
    by (metis one_le_numeral)
qed

section \<open>The live set\<close>

text \<open>
  \<open>add_all\<close> satisfies the equations of the source: \<^verbatim>\<open>add\<close> returns at once for a member,
  and otherwise inserts the node and adds its epsilon successors one after the other.
\<close>

lemma add_all_append:
  "add_all h s (xs @ ys) = (case add_all h s xs of Inl f \<Rightarrow> Inl f | Inr s' \<Rightarrow> add_all h s' ys)"
  by (induction h s xs rule: add_all.induct) simp_all

lemma add_Some:
  "add h s (Some a) =
    (if a \<in> s then Inr s
     else if a < length h then add_all h (insert a s) (epsilons (h ! a))
     else Inl (Panic NilDereference))"
  by (simp add: add_def)

lemma add_all_Cons:
  "add_all h s (e # es) = (case add h s e of Inl f \<Rightarrow> Inl f | Inr s' \<Rightarrow> add_all h s' es)"
  using add_all_append[of h s "[e]" es] by (simp add: add_def)

lemma closed_up_to_stack:
  assumes J: "\<forall>x\<in>s. \<forall>b. (x, b) \<in> R \<longrightarrow> b \<in> s \<or> b \<in> T"
    and x: "x \<in> s" and p: "(x, y) \<in> R\<^sup>*"
  shows "y \<in> s \<union> R\<^sup>* `` T"
  using p
proof (induction rule: rtrancl_induct)
  case base
  with x show ?case by simp
next
  case (step y z)
  from step.IH show ?case
  proof
    assume "y \<in> s"
    with J step.hyps(2) have "z \<in> s \<or> z \<in> T" by blast
    then show ?thesis by blast
  next
    assume "y \<in> R\<^sup>* `` T"
    with step.hyps(2) show ?thesis
      by (meson Image_iff UnI2 rtrancl.rtrancl_into_rtrancl)
  qed
qed

lemma rtrancl_image_insert:
  "R\<^sup>* `` insert a T = insert a (R\<^sup>* `` (R `` {a})) \<union> R\<^sup>* `` T"
proof -
  have "R\<^sup>* `` {a} = insert a (R\<^sup>* `` (R `` {a}))"
  proof (intro set_eqI iffI)
    fix y assume "y \<in> R\<^sup>* `` {a}"
    then have "(a, y) \<in> R\<^sup>*" by simp
    then show "y \<in> insert a (R\<^sup>* `` (R `` {a}))"
      by (cases rule: converse_rtranclE) auto
  next
    fix y assume "y \<in> insert a (R\<^sup>* `` (R `` {a}))"
    then show "y \<in> R\<^sup>* `` {a}"
      by (auto intro: converse_rtrancl_into_rtrancl)
  qed
  then show ?thesis by blast
qed

lemma add_all_closure:
  assumes "wf_heap h"
    and "\<forall>e\<in>set es. \<exists>b. e = Some b \<and> b < length h"
    and "\<forall>x\<in>s. \<forall>b. (x, b) \<in> eps_edge h \<longrightarrow> b \<in> s \<or> Some b \<in> set es"
  shows "add_all h s es = Inr (s \<union> (eps_edge h)\<^sup>* `` {b. Some b \<in> set es})"
  using assms
proof (induction h s es rule: add_all.induct)
  case (1 h s)
  show ?case by simp
next
  case (2 h s es)
  then show ?case by simp
next
  case (3 h s a es)
  let ?R = "eps_edge h"
  let ?T = "{b. Some b \<in> set es}"
  from "3.prems"(2) have a: "a < length h" and es: "\<forall>e\<in>set es. \<exists>b. e = Some b \<and> b < length h"
    by auto
  have T: "{b. Some b \<in> set (Some a # es)} = insert a ?T" by auto
  show ?case
  proof (cases "a \<in> s")
    case True
    have J: "\<forall>x\<in>s. \<forall>b. (x, b) \<in> ?R \<longrightarrow> b \<in> s \<or> Some b \<in> set es"
      using "3.prems"(3) True by auto
    have ih: "add_all h s es = Inr (s \<union> ?R\<^sup>* `` ?T)"
      using "3.IH"(1)[OF True "3.prems"(1) es J] .
    have "?R\<^sup>* `` {a} \<subseteq> s \<union> ?R\<^sup>* `` ?T"
    proof
      fix y assume "y \<in> ?R\<^sup>* `` {a}"
      then have "(a, y) \<in> ?R\<^sup>*" by simp
      from closed_up_to_stack[of s ?R ?T a y, OF _ True this] J
      show "y \<in> s \<union> ?R\<^sup>* `` ?T" by blast
    qed
    then have eq: "s \<union> ?R\<^sup>* `` ?T = s \<union> ?R\<^sup>* `` insert a ?T"
      by blast
    have "add_all h s (Some a # es) = add_all h s es"
      using True by simp
    also have "\<dots> = Inr (s \<union> ?R\<^sup>* `` ?T)" by (rule ih)
    also have "\<dots> = Inr (s \<union> ?R\<^sup>* `` insert a ?T)" by (simp only: eq)
    finally show ?thesis unfolding T .
  next
    case False
    let ?E = "epsilons (h ! a)"
    have mem: "h ! a \<in> set h" using a by simp
    have es': "\<forall>e\<in>set (?E @ es). \<exists>b. e = Some b \<and> b < length h"
      using es mem "3.prems"(1) by (auto simp: wf_heap_def)
    have J': "\<forall>x\<in>insert a s. \<forall>b. (x, b) \<in> ?R \<longrightarrow> b \<in> insert a s \<or> Some b \<in> set (?E @ es)"
      using "3.prems"(3) by (auto simp: eps_edge_def)
    have ih: "add_all h (insert a s) (?E @ es)
        = Inr (insert a s \<union> ?R\<^sup>* `` {b. Some b \<in> set (?E @ es)})"
      using "3.IH"(2)[OF False a "3.prems"(1) es' J'] .
    have succ: "?R `` {a} = {b. Some b \<in> set ?E}"
      using a by (auto simp: eps_edge_def)
    have "{b. Some b \<in> set (?E @ es)} = ?R `` {a} \<union> ?T"
      using succ by auto
    then have eq: "insert a s \<union> ?R\<^sup>* `` {b. Some b \<in> set (?E @ es)}
       = s \<union> ?R\<^sup>* `` insert a ?T"
      by (subst rtrancl_image_insert[of ?R a ?T]) auto
    have "add_all h s (Some a # es) = add_all h (insert a s) (?E @ es)"
      using False a by simp
    also have "\<dots> = Inr (insert a s \<union> ?R\<^sup>* `` {b. Some b \<in> set (?E @ es)})"
      by (rule ih)
    also have "\<dots> = Inr (s \<union> ?R\<^sup>* `` insert a ?T)" by (simp only: eq)
    finally show ?thesis unfolding T .
  qed
qed

text \<open>
  Adding a node to a set that is closed under epsilon edges gives the set with all
  nodes reachable from the node, closed again.
\<close>

lemma reach_in_arena:
  assumes w: "wf_heap h" and a: "a < length h" and b: "b \<in> reach h a"
  shows "b < length h"
proof -
  from b have "(a, b) \<in> (eps_edge h)\<^sup>*" by (simp add: reach_def)
  then show ?thesis
  proof (induction rule: rtrancl_induct)
    case base
    show ?case by (rule a)
  next
    case (step y z)
    from step.hyps(2) have y: "y < length h" and z: "Some z \<in> set (epsilons (h ! y))"
      by (auto simp: eps_edge_def)
    have "h ! y \<in> set h" using y by simp
    with w z show ?case unfolding wf_heap_def by blast
  qed
qed

lemma add_closed_set:
  assumes "wf_heap h" "n < length h" "eps_closed h s"
  shows "add h s (Some n) = Inr (s \<union> reach h n)" "eps_closed h (s \<union> reach h n)"
proof -
  have "add_all h s [Some n] = Inr (s \<union> (eps_edge h)\<^sup>* `` {b. Some b \<in> set [Some n]})"
    using assms by (intro add_all_closure) (auto simp: eps_closed_def)
  then show "add h s (Some n) = Inr (s \<union> reach h n)"
    by (simp add: add_def reach_def)
  show "eps_closed h (s \<union> reach h n)"
    using assms(3) unfolding eps_closed_def reach_def
    by (auto intro: rtrancl_into_rtrancl)
qed

lemma add_result:
  assumes r: "add h s n = Inr s'"
  obtains (member) a where "n = Some a" "a \<in> s" "s' = s"
  | (new) a where "n = Some a" "a \<notin> s" "a < length h"
proof (cases n)
  case None
  with r show ?thesis by (simp add: add_def)
next
  case (Some a)
  show ?thesis
  proof (cases "a \<in> s")
    case True
    with r Some have "s' = s" by (simp add: add_def)
    with Some True show ?thesis by (rule member)
  next
    case False
    with r Some have "a < length h" by (auto simp: add_def split: if_splits)
    with Some False show ?thesis by (rule new)
  qed
qed

lemma built_closed:
  assumes w: "wf_heap h" and b: "built h s"
  shows "eps_closed h s \<and> (\<forall>a\<in>s. a < length h)"
  using b
proof (induction rule: built.induct)
  case built_empty
  show ?case by (simp add: eps_closed_def)
next
  case (built_add s n s')
  from built_add.hyps(2) show ?case
  proof (cases rule: add_result)
    case (member a)
    with built_add.IH show ?thesis by simp
  next
    case (new a)
    from built_add.IH have c: "eps_closed h s" by simp
    from add_closed_set[OF w new(3) c] built_add.hyps(2) new(1)
    have s': "s' = s \<union> reach h a" and c': "eps_closed h (s \<union> reach h a)" by simp_all
    show ?thesis using built_add.IH c' reach_in_arena[OF w new(3)] by (auto simp: s')
  qed
qed

lemma step_nodes_built:
  assumes "built h nx" "step_nodes h r ns nx = Inr nx'"
  shows "built h nx'"
  using assms
proof (induction ns arbitrary: nx)
  case Nil
  then show ?case by simp
next
  case (Cons n ns)
  show ?case
  proof (cases "n < length h \<and> isMatchNode (kind (h ! n)) \<and> matches (kind (h ! n)) r")
    case True
    with Cons.prems(2) obtain nx1 where a: "add h nx (nxt (h ! n)) = Inr nx1"
      and s: "step_nodes h r ns nx1 = Inr nx'"
      by (auto split: sum.splits)
    from built_add[OF Cons.prems(1) a] have "built h nx1" .
    from Cons.IH[OF this s] show ?thesis .
  next
    case False
    with Cons.prems(2) have "step_nodes h r ns nx = Inr nx'" by auto
    from Cons.IH[OF Cons.prems(1) this] show ?thesis .
  qed
qed

lemma first_set_built: "add h {} n = Inr s \<Longrightarrow> built h s"
  by (rule built_add[OF built_empty])

text \<open>
  Claim C9. In the arena of a compiled pattern, every node set \<open>s\<close> of the matcher is
  closed under epsilon edges, and it has no duplicates (it is a set). For every node \<open>n\<close>
  of the arena, adding \<open>n\<close> to \<open>s\<close> returns and gives exactly \<open>s\<close> with \<open>n\<close> and all nodes
  reachable from \<open>n\<close> by epsilon edges, a set of the matcher again; adding \<open>n\<close> once more,
  or adding any member of \<open>s\<close> to \<open>s\<close>, changes nothing.
\<close>

theorem live_set_add:
  assumes c: "Compile p = Inr re" and b: "built (nodes re) s" and n: "n < length (nodes re)"
  shows "eps_closed (nodes re) s
    \<and> add (nodes re) s (Some n) = Inr (s \<union> reach (nodes re) n)
    \<and> n \<in> s \<union> reach (nodes re) n
    \<and> eps_closed (nodes re) (s \<union> reach (nodes re) n)
    \<and> built (nodes re) (s \<union> reach (nodes re) n)
    \<and> add (nodes re) (s \<union> reach (nodes re) n) (Some n) = Inr (s \<union> reach (nodes re) n)
    \<and> (\<forall>m\<in>s. add (nodes re) s (Some m) = Inr s)"
proof -
  have w: "wf_heap (nodes re)" by (rule compiled_arena(1)[OF c])
  from built_closed[OF w b] have cl: "eps_closed (nodes re) s" by simp
  note a = add_closed_set[OF w n cl]
  have "built (nodes re) (s \<union> reach (nodes re) n)" by (rule built_add[OF b a(1)])
  moreover have m: "n \<in> s \<union> reach (nodes re) n" by (simp add: reach_def)
  moreover have "add (nodes re) (s \<union> reach (nodes re) n) (Some n) = Inr (s \<union> reach (nodes re) n)"
    using m by (simp add: add_def)
  moreover have "\<forall>m\<in>s. add (nodes re) s (Some m) = Inr s" by (simp add: add_def)
  ultimately show ?thesis using cl a by simp
qed

theorem live_set_add_witness:
  "Compile ''a*'' =
     Inr \<lparr>rstart = Some 0, rterm = Some 2, pattern = ''a*'',
          nodes = [\<lparr>kind = LiteralNode 97, epsilons = [Some 1], nxt = Some 1\<rparr>,
                   \<lparr>kind = StarNode, epsilons = [Some 0, Some 2], nxt = None\<rparr>,
                   \<lparr>kind = TerminalNode, epsilons = [], nxt = None\<rparr>]\<rparr>
   \<and> built [\<lparr>kind = LiteralNode 97, epsilons = [Some 1], nxt = Some 1\<rparr>,
             \<lparr>kind = StarNode, epsilons = [Some 0, Some 2], nxt = None\<rparr>,
             \<lparr>kind = TerminalNode, epsilons = [], nxt = None\<rparr>] {2}
   \<and> add [\<lparr>kind = LiteralNode 97, epsilons = [Some 1], nxt = Some 1\<rparr>,
           \<lparr>kind = StarNode, epsilons = [Some 0, Some 2], nxt = None\<rparr>,
           \<lparr>kind = TerminalNode, epsilons = [], nxt = None\<rparr>] {2} (Some 0)
       = Inr ({2} \<union> reach [\<lparr>kind = LiteralNode 97, epsilons = [Some 1], nxt = Some 1\<rparr>,
           \<lparr>kind = StarNode, epsilons = [Some 0, Some 2], nxt = None\<rparr>,
           \<lparr>kind = TerminalNode, epsilons = [], nxt = None\<rparr>] 0)
   \<and> add [\<lparr>kind = LiteralNode 97, epsilons = [Some 1], nxt = Some 1\<rparr>,
           \<lparr>kind = StarNode, epsilons = [Some 0, Some 2], nxt = None\<rparr>,
           \<lparr>kind = TerminalNode, epsilons = [], nxt = None\<rparr>] {2} (Some 0)
       = Inr {1, 0, 2}
   \<and> add [\<lparr>kind = LiteralNode 97, epsilons = [Some 1], nxt = Some 1\<rparr>,
           \<lparr>kind = StarNode, epsilons = [Some 0, Some 2], nxt = None\<rparr>,
           \<lparr>kind = TerminalNode, epsilons = [], nxt = None\<rparr>] {2} (Some 2)
       = Inr {2}"
proof -
  let ?h = "[\<lparr>kind = LiteralNode 97, epsilons = [Some 1], nxt = Some 1\<rparr>,
             \<lparr>kind = StarNode, epsilons = [Some 0, Some 2], nxt = None\<rparr>,
             \<lparr>kind = TerminalNode, epsilons = [], nxt = None\<rparr>]"
  let ?re = "\<lparr>rstart = Some 0, rterm = Some 2, pattern = ''a*'', nodes = ?h\<rparr>"
  have c: "Compile ''a*'' = Inr ?re" by (simp add: run_parser)
  have "add ?h {} (Some 2) = Inr {2}" by (simp add: add_def)
  from built_add[OF built_empty this] have b: "built (nodes ?re) {2}" by simp
  have n: "0 < length (nodes ?re)" by simp
  have r: "add ?h {2} (Some 0) = Inr {1, 0, 2}" by (simp add: add_def)
  from live_set_add[OF c b n] c b r show ?thesis by simp
qed

subsection \<open>The matcher on a compiled pattern\<close>

text \<open>
  Every match node of a compiled pattern is linked: \<^verbatim>\<open>concat\<close> has set its field \<^verbatim>\<open>n\<close>
  to a node of the arena.
\<close>

lemma ends_simps [simp]:
  "ends no_expr = {}" "ends \<lparr>start = s, fin = Some b\<rparr> = {b}" "ends (e\<lparr>fin := Some b\<rparr>) = {b}"
  by (simp_all add: ends_def no_expr_def)

lemma ends_fin: "fin e = fin e' \<Longrightarrow> ends e = ends e'"
  by (simp add: ends_def)

lemma linked_except_mono: "linked_except h X \<Longrightarrow> X \<subseteq> Y \<Longrightarrow> linked_except h Y"
  by (auto simp: linked_except_def)

lemma linked_except_new:
  assumes "new_node h k = (n, h1)" "linked_except h X"
  shows "linked_except h1 (X \<union> {n})" "\<not> isMatchNode k \<Longrightarrow> linked_except h1 X"
proof -
  from assms(1) have h1: "h1 = h @ [\<lparr>kind = k, epsilons = [], nxt = None\<rparr>]" and n: "n = length h"
    by (simp_all add: new_node_def)
  have old: "linked h1 a" if "a < length h" "a \<notin> X" for a
  proof -
    from assms(2) that have "linked h a" by (simp add: linked_except_def)
    then show ?thesis using that(1) by (auto simp: linked_def h1 nth_append)
  qed
  show "linked_except h1 (X \<union> {n})"
    unfolding linked_except_def using old by (auto simp: h1 n less_Suc_eq)
  assume "\<not> isMatchNode k"
  then have "linked h1 (length h)" by (simp add: linked_def h1)
  then show "linked_except h1 X"
    unfolding linked_except_def using old by (auto simp: h1 less_Suc_eq)
qed

lemma linked_except_addEpsilon:
  assumes "addEpsilon h a e = Inr h'" "linked_except h X"
  shows "linked_except h' X"
proof -
  from assms(1) obtain x where x: "a = Some x" "x < length h"
    and h': "h' = h[x := (h ! x)\<lparr>epsilons := epsilons (h ! x) @ [e]\<rparr>]"
    by (cases a) (auto split: if_splits)
  have "linked h' b = linked h b" if "b < length h" for b
    using that by (cases "b = x") (simp_all add: linked_def h')
  with assms(2) show ?thesis by (simp add: linked_except_def h')
qed

lemma linked_except_setNext:
  assumes "setNext h (Some b) (Some c) = Inr h'" "c < length h" "linked_except h X"
  shows "linked_except h' (X - {b})"
proof -
  from assms(1) have b: "b < length h" and h': "h' = h[b := (h ! b)\<lparr>nxt := Some c\<rparr>]"
    by (auto split: if_splits)
  have "linked h' b" using b assms(2) by (simp add: linked_def h')
  moreover have "linked h' a = linked h a" if "a < length h" "a \<noteq> b" for a
    using that by (simp add: linked_def h')
  ultimately show ?thesis using assms(3) by (auto simp: linked_except_def h')
qed

lemma concat_expr_kind:
  assumes "concat_expr h e nx = Inr (e', h')" "a < length h"
  shows "kind (h' ! a) = kind (h ! a)"
proof -
  have upd: "kind (g[i := (g ! i)\<lparr>epsilons := x\<rparr>] ! a) = kind (g ! a)"
    "kind (g[i := (g ! i)\<lparr>nxt := y\<rparr>] ! a) = kind (g ! a)"
    if "a < length g" for g :: heap and i x y
    using that by (cases "a = i"; simp)+
  from assms show ?thesis
    by (auto simp: concat_expr_def upd split: if_splits option.splits sum.splits)
qed

lemma concat_expr_linked:
  assumes e: "expr_wf h e" and nx: "expr_wf h nx"
    and r: "concat_expr h e nx = Inr (e', h')"
    and l: "linked_except h (X \<union> ends e \<union> ends nx)"
  shows "linked_except h' (X \<union> ends e')" "\<not> isEmpty nx \<Longrightarrow> fin e' = fin nx"
proof -
  have both: "linked_except h' (X \<union> ends e') \<and> (\<not> isEmpty nx \<longrightarrow> fin e' = fin nx)"
  proof (cases "isEmpty e")
    case True
    then have "e' = nx" "h' = h" using r by (simp_all add: concat_expr_def)
    with l True show ?thesis by (simp add: isEmpty_def)
  next
    case ne: False
    show ?thesis
    proof (cases "isEmpty nx")
      case True
      then have "e' = e" "h' = h" using r ne by (simp_all add: concat_expr_def)
      with l True show ?thesis by (simp add: isEmpty_def)
    next
      case False
      from e ne obtain b where ea: "fin e = Some b" "b < length h"
        by (auto simp: expr_wf_def in_arena_def)
      from nx False obtain c d where na: "start nx = Some c" "c < length h" "fin nx = Some d"
        by (auto simp: expr_wf_def in_arena_def)
      from r ne False ea na have e': "e' = e\<lparr>fin := fin nx\<rparr>"
        by (auto simp: concat_expr_def split: sum.splits if_splits)
      have en: "ends e = {b}" "ends nx = {d}" "ends e' = {d}"
        using ea na by (simp_all add: ends_def e')
      have "linked_except h' (X \<union> {d})"
      proof (cases "isMatchNode (kind (h ! b))")
        case True
        with r ne False ea na have "setNext h (Some b) (Some c) = Inr h'"
          by (auto simp: concat_expr_def split: sum.splits if_splits)
        from linked_except_setNext[OF this na(2) l]
        show ?thesis unfolding en by (rule linked_except_mono) auto
      next
        case nm: False
        with r ne False ea na have ae: "addEpsilon h (Some b) (Some c) = Inr h'"
          by (auto simp: concat_expr_def split: sum.splits if_splits)
        from linked_except_addEpsilon[OF ae l] have l': "linked_except h' (X \<union> {b} \<union> {d})"
          unfolding en .
        have len: "length h' = length h" using ae by (auto split: if_splits)
        have "kind (h' ! b) = kind (h ! b)" by (rule concat_expr_kind[OF r ea(2)])
        with nm have "linked h' b" by (simp add: linked_def)
        with l' show ?thesis by (auto simp: linked_except_def)
      qed
      then show ?thesis using en e' False by simp
    qed
  qed
  from both show "linked_except h' (X \<union> ends e')" "\<not> isEmpty nx \<Longrightarrow> fin e' = fin nx"
    by blast+
qed

lemma concatNode_linked:
  assumes e: "expr_wf h e" and n: "n < length h"
    and r: "concatNode h e (Some n) = Inr (e', h')"
    and l: "linked_except h (X \<union> ends e \<union> {n})"
  shows "linked_except h' (X \<union> {n})" "fin e' = Some n"
proof -
  let ?nx = "\<lparr>start = Some n, fin = Some n\<rparr>"
  have nx: "expr_wf h ?nx" using n by (simp add: expr_wf_def in_arena_def)
  have ne: "\<not> isEmpty ?nx" by (simp add: isEmpty_def no_expr_def)
  from r have c: "concat_expr h e ?nx = Inr (e', h')" by (simp add: concatNode_def)
  have l': "linked_except h (X \<union> ends e \<union> ends ?nx)" using l by simp
  from concat_expr_linked(2)[OF e nx c l' ne] show f: "fin e' = Some n" by simp
  then have "ends e' = {n}" by (simp add: ends_def)
  with concat_expr_linked(1)[OF e nx c l'] show "linked_except h' (X \<union> {n})" by simp
qed


lemma parseLiteral_linked:
  assumes "parseLiteral p h = Inr (e, p', h')" "linked_except h X"
  shows "linked_except h' (X \<union> ends e)"
proof -
  obtain r p1 where n: "parser_next p = (r, p1)" by (cases "parser_next p")
  obtain a h1 where nn: "new_node h (LiteralNode r) = (a, h1)" by (cases "new_node h (LiteralNode r)")
  from assms(1) n nn have "e = \<lparr>start = Some a, fin = Some a\<rparr>" "h' = h1"
    by (simp_all add: parseLiteral_def)
  with linked_except_new(1)[OF nn assms(2)] show ?thesis by simp
qed

lemma parseDot_linked:
  assumes "parseDot p h = Inr (e, p', h')" "linked_except h X"
  shows "linked_except h' (X \<union> ends e)"
proof -
  obtain r p1 where n: "parser_next p = (r, p1)" by (cases "parser_next p")
  obtain a h1 where nn: "new_node h DotNode = (a, h1)" by (cases "new_node h DotNode")
  from assms(1) n nn have "e = \<lparr>start = Some a, fin = Some a\<rparr>" "h' = h1"
    by (simp_all add: parseDot_def)
  with linked_except_new(1)[OF nn assms(2)] show ?thesis by simp
qed

lemma parseEscape_linked:
  assumes "parseEscape p h = Inr (e, p', h')" "linked_except h X"
  shows "linked_except h' (X \<union> ends e)"
proof -
  from assms(1) obtain p2 where "parseLiteral p2 h = Inr (e, p', h')"
    by (auto simp: parseEscape_def split: prod.splits if_splits)
  from parseLiteral_linked[OF this assms(2)] show ?thesis .
qed

lemma parseMeta_linked:
  assumes w: "wf_heap h" and t: "in_arena h t" and r: "parseMeta p h t = Inr (e', p', h')"
    and l: "linked_except h (X \<union> ends t)"
  shows "linked_except h' (X \<union> ends e')"
proof -
  obtain mc p1 where nx: "parser_next p = (mc, p1)" by (cases "parser_next p")
  from t obtain a where a: "start t = Some a" "a < length h" by (auto simp: in_arena_def)
  have quant: "linked_except h' (X \<union> ends e')"
    if nn: "new_node h k = (n, h1)" and k: "\<not> isMatchNode k"
      and ed: "length h2 = length h1" "linked_except h1 (X \<union> ends t) \<Longrightarrow> linked_except h2 (X \<union> ends t)"
      and cn: "concatNode h2 t (Some n) = Inr (e', h')"
    for k n h1 h2
  proof -
    note n1 = new_node_wf(2,3)[OF w nn]
    have l2: "linked_except h2 (X \<union> ends t)"
      by (rule ed(2)[OF linked_except_new(2)[OF nn l k]])
    have t2: "expr_wf h2 t" using t ed(1) n1 by (auto simp: expr_wf_def in_arena_def)
    have n2: "n < length h2" using n1 ed(1) by simp
    have l2': "linked_except h2 (X \<union> ends t \<union> {n})"
      by (rule linked_except_mono[OF l2]) auto
    from concatNode_linked[OF t2 n2 cn l2'] show ?thesis by (simp add: ends_def)
  qed
  consider (plus) "mc = PLUS" | (star) "mc \<noteq> PLUS" "mc = STAR"
    | (qmark) "mc \<noteq> PLUS" "mc \<noteq> STAR" "mc = QMARK"
    | (other) "mc \<noteq> PLUS" "mc \<noteq> STAR" "mc \<noteq> QMARK"
    by blast
  then show ?thesis
  proof cases
    case plus
    obtain n h1 where nn: "new_node h PlusNode = (n, h1)" by (cases "new_node h PlusNode")
    from r nx plus nn obtain h2 where e1: "addEpsilon h1 (Some n) (start t) = Inr h2"
      and cn: "concatNode h2 t (Some n) = Inr (e', h')"
      by (auto simp: parseMeta_def split: sum.splits)
    have "length h2 = length h1" using e1 by (auto split: if_splits)
    from quant[OF nn _ this linked_except_addEpsilon[OF e1] cn] show ?thesis by simp
  next
    case star
    obtain n h1 where nn: "new_node h StarNode = (n, h1)" by (cases "new_node h StarNode")
    from r nx star nn obtain h2 h3 where e1: "addEpsilon h1 (Some n) (start t) = Inr h2"
      and e2: "addEpsilon h2 (start t) (Some n) = Inr h3"
      and cn: "concatNode h3 t (Some n) = Inr (e', h')"
      by (auto simp: parseMeta_def split: sum.splits)
    have "length h2 = length h1" using e1 by (auto split: if_splits)
    moreover have "length h3 = length h2" using e2 by (cases "start t") (auto split: if_splits)
    ultimately have len: "length h3 = length h1" by simp
    have "linked_except h1 Y \<Longrightarrow> linked_except h3 Y" for Y
      using linked_except_addEpsilon[OF e2] linked_except_addEpsilon[OF e1] by blast
    from quant[OF nn _ len this cn] show ?thesis by simp
  next
    case qmark
    obtain n h1 where nn: "new_node h QmarkNode = (n, h1)" by (cases "new_node h QmarkNode")
    from r nx qmark nn obtain h2 where e1: "addEpsilon h1 (start t) (Some n) = Inr h2"
      and cn: "concatNode h2 t (Some n) = Inr (e', h')"
      by (auto simp: parseMeta_def split: sum.splits)
    have "length h2 = length h1" using e1 by (cases "start t") (auto split: if_splits)
    from quant[OF nn _ this linked_except_addEpsilon[OF e1] cn] show ?thesis by simp
  next
    case other
    from r nx other have "e' = t" "h' = h"
      using in_arena_not_empty[OF t]
      by (auto simp: parseMeta_def concatNode_def concat_expr_def isEmpty_def no_expr_def
          split: sum.splits)
    with l show ?thesis by simp
  qed
qed

lemma clause_ln_step:
  assumes c: "clause_ln n" and pi: "pipe_ln n" and tm: "term_ln n"
  shows "clause_ln (Suc n)"
  unfolding clause_ln_def
proof (intro allI impI)
  fix p :: parser and h :: heap and e e' :: expr and p' :: parser and h' :: heap and X :: "nat set"
  assume w: "wf_heap h" and e: "expr_wf h e" and l: "linked_except h (X \<union> ends e)"
    and run: "parseClause (Suc n) p h e = Inr (e', p', h')"
  obtain r p1 where pk: "peek p = (r, p1)" by (cases "peek p")
  consider (stop) "r = RuneError \<or> r = RPAREN"
    | (pipe) "r \<noteq> RuneError" "r \<noteq> RPAREN" "r = PIPE"
    | (trm) "r \<noteq> RuneError" "r \<noteq> RPAREN" "r \<noteq> PIPE"
    by blast
  then show "linked_except h' (X \<union> ends e')"
  proof cases
    case stop
    then have "e' = e" "h' = h" using run pk by (auto simp: parseClause.simps)
    with l show ?thesis by simp
  next
    case pipe
    from run pk pipe obtain e2 p2 h2 where
      r1: "parsePipe n p1 h e = Inr (e2, p2, h2)" and r2: "parseClause n p2 h2 e2 = Inr (e', p', h')"
      by (auto simp: parseClause.simps split: sum.splits)
    have pw: "pipe_wf n" using parser_wf by blast
    have s1: "wf_heap h2 \<and> expr_wf h2 e2 \<and> length h \<le> length h2"
      using pw w e r1 unfolding pipe_wf_def by blast
    have l2: "linked_except h2 (X \<union> ends e2)"
      using pi w e l r1 unfolding pipe_ln_def by blast
    show ?thesis using c s1 l2 r2 unfolding clause_ln_def by blast
  next
    case trm
    from run pk trm obtain nx p2 h2 e3 h3 where
      r1: "parseTerm n p1 h = Inr (nx, p2, h2)"
      and r2: "concat_expr h2 e nx = Inr (e3, h3)"
      and r3: "parseClause n p2 h3 e3 = Inr (e', p', h')"
      by (auto simp: parseClause.simps split: sum.splits)
    have tw: "term_wf n" using parser_wf by blast
    have s1: "wf_heap h2 \<and> in_arena h2 nx \<and> length h \<le> length h2"
      using tw w r1 unfolding term_wf_def by blast
    have l2: "linked_except h2 (X \<union> ends e \<union> ends nx)"
      using tm w l r1 unfolding term_ln_def by blast
    have e2: "expr_wf h2 e" using e s1 by (auto intro: expr_wf_mono)
    have nx2: "expr_wf h2 nx" using s1 by (simp add: expr_wf_def)
    have s2: "wf_heap h3" "expr_wf h3 e3"
      using concat_expr_wf(1,2)[OF _ e2 nx2 r2] s1 by simp_all
    have l3: "linked_except h3 (X \<union> ends e3)"
      by (rule concat_expr_linked(1)[OF e2 nx2 r2 l2])
    show ?thesis using c s2 l3 r3 unfolding clause_ln_def by blast
  qed
qed

lemma pipe_ln_step:
  assumes c: "clause_ln n"
  shows "pipe_ln (Suc n)"
  unfolding pipe_ln_def
proof (intro allI impI)
  fix p :: parser and h :: heap and lhs e' :: expr and p' :: parser and h' :: heap and X :: "nat set"
  assume w: "wf_heap h" and lw: "expr_wf h lhs" and l: "linked_except h (X \<union> ends lhs)"
    and run: "parsePipe (Suc n) p h lhs = Inr (e', p', h')"
  obtain r0 p1 where nx: "parser_next p = (r0, p1)" by (cases "parser_next p")
  from run nx have ne: "\<not> isEmpty lhs"
    by (auto simp: parsePipe.simps split: if_splits prod.splits)
  with lw obtain a where a: "start lhs = Some a" "a < length h"
    by (auto simp: expr_wf_def in_arena_def)
  from run nx ne obtain e2 p2 h2 h3 where r1: "parseClause n p1 h no_expr = Inr (e2, p2, h2)"
    and r2: "addEpsilon h2 (start e2) (start lhs) = Inr h3"
    and rest: "(let (k, h4) = new_node h3 PipeNode in
                  case concatNode h4 e2 (Some k) of
                    Inl f \<Rightarrow> Inl f
                  | Inr (e', h5) \<Rightarrow>
                      (case concatNode h5 lhs (Some k) of
                         Inl f \<Rightarrow> Inl f
                       | Inr (lhs', h6) \<Rightarrow> Inr (e', p2, h6))) = Inr (e', p', h')"
    by (auto simp: parsePipe.simps split: sum.splits)
  have cw: "clause_wf n" using parser_wf by blast
  have e0: "expr_wf h no_expr" by (rule expr_wf_empty)
  have s1: "wf_heap h2 \<and> expr_wf h2 e2 \<and> length h \<le> length h2"
    using cw w e0 r1 unfolding clause_wf_def by blast
  have l0: "linked_except h ((X \<union> ends lhs) \<union> ends no_expr)" using l by simp
  have l2: "linked_except h2 ((X \<union> ends lhs) \<union> ends e2)"
    using c w e0 l0 r1 unfolding clause_ln_def by blast
  have a2: "a < length h2" using a s1 by simp
  have s2: "wf_heap h3" "length h3 = length h2"
    using addEpsilon_wf[OF _ a2, of "start e2" h3] r2 a s1 by simp_all
  have l3: "linked_except h3 ((X \<union> ends lhs) \<union> ends e2)"
    by (rule linked_except_addEpsilon[OF r2 l2])
  obtain k h4 where nn: "new_node h3 PipeNode = (k, h4)" by (cases "new_node h3 PipeNode")
  note n4 = new_node_wf[OF s2(1) nn]
  have l4: "linked_except h4 ((X \<union> ends lhs) \<union> ends e2)"
    by (rule linked_except_new(2)[OF nn l3]) simp
  from rest nn obtain h5 lhs' where r3: "concatNode h4 e2 (Some k) = Inr (e', h5)"
    and r4: "concatNode h5 lhs (Some k) = Inr (lhs', h')"
    by (auto split: sum.splits)
  have e4: "expr_wf h4 e2" using s1 s2 n4 by (auto intro: expr_wf_mono)
  have k4: "k < length h4" using n4 by simp
  have l4': "linked_except h4 ((X \<union> ends lhs) \<union> ends e2 \<union> {k})"
    by (rule linked_except_mono[OF l4]) auto
  note c5 = concatNode_wf[OF n4(1) e4 k4 r3]
  note d5 = concatNode_linked[OF e4 k4 r3 l4']
  have l5: "expr_wf h5 lhs" using lw s1 s2 n4 c5 by (auto intro: expr_wf_mono)
  have k5: "k < length h5" using k4 c5 by simp
  have l5': "linked_except h5 (X \<union> ends lhs \<union> {k})"
    by (rule linked_except_mono[OF d5(1)]) auto
  from concatNode_linked(1)[OF l5 k5 r4 l5'] have "linked_except h' (X \<union> {k})" .
  moreover have "ends e' = {k}" using d5(2) by (simp add: ends_def)
  ultimately show "linked_except h' (X \<union> ends e')" by simp
qed

lemma term_ln_step:
  assumes sb: "subexp_ln n"
  shows "term_ln (Suc n)"
  unfolding term_ln_def
proof (intro allI impI)
  fix p :: parser and h :: heap and e' :: expr and p' :: parser and h' :: heap and X :: "nat set"
  assume w: "wf_heap h" and l: "linked_except h X"
    and run: "parseTerm (Suc n) p h = Inr (e', p', h')"
  obtain r p1 where pk: "peek p = (r, p1)" by (cases "peek p")
  let ?atom = "if r = LPAREN then parseSubexp n p1 h
            else if r = BACKSLASH then parseEscape p1 h
            else if r = DOT then parseDot p1 h
            else parseLiteral p1 h"
  from run pk obtain e2 p2 h2 where at: "?atom = Inr (e2, p2, h2)"
    and rest: "(let (r2, p3) = peek p2 in
              if r2 = QMARK \<or> r2 = PLUS \<or> r2 = STAR then parseMeta p3 h2 e2
              else Inr (e2, p3, h2)) = Inr (e', p', h')"
    by (auto simp: parseTerm.simps split: if_splits sum.splits)
  have sw: "subexp_wf n" using parser_wf by blast
  have s1: "wf_heap h2 \<and> in_arena h2 e2 \<and> length h \<le> length h2"
  proof -
    have "parseSubexp n p1 h = Inr (e2, p2, h2) \<Longrightarrow> ?thesis"
      using sw w unfolding subexp_wf_def by blast
    then show ?thesis
      using at parseEscape_wf[OF w] parseDot_wf[OF w] parseLiteral_wf[OF w]
      by (auto split: if_splits)
  qed
  have l2: "linked_except h2 (X \<union> ends e2)"
  proof -
    have "parseSubexp n p1 h = Inr (e2, p2, h2) \<Longrightarrow> ?thesis"
      using sb w l unfolding subexp_ln_def by blast
    then show ?thesis
      using at parseEscape_linked[OF _ l] parseDot_linked[OF _ l] parseLiteral_linked[OF _ l]
      by (auto split: if_splits)
  qed
  obtain r2 p3 where pk2: "peek p2 = (r2, p3)" by (cases "peek p2")
  show "linked_except h' (X \<union> ends e')"
  proof (cases "r2 = QMARK \<or> r2 = PLUS \<or> r2 = STAR")
    case True
    then have m: "parseMeta p3 h2 e2 = Inr (e', p', h')" using rest pk2 by simp
    from parseMeta_linked[OF _ _ m l2] s1 show ?thesis by simp
  next
    case False
    then have "e' = e2" "h' = h2" using rest pk2 by simp_all
    with l2 show ?thesis by simp
  qed
qed

lemma subexp_ln_step:
  assumes c: "clause_ln n"
  shows "subexp_ln (Suc n)"
  unfolding subexp_ln_def
proof (intro allI impI)
  fix p :: parser and h :: heap and e' :: expr and p' :: parser and h' :: heap and X :: "nat set"
  assume w: "wf_heap h" and l: "linked_except h X"
    and run: "parseSubexp (Suc n) p h = Inr (e', p', h')"
  obtain r0 p1 where nx: "parser_next p = (r0, p1)" by (cases "parser_next p")
  from run nx obtain e2 p2 h2 where r1: "parseClause n p1 h no_expr = Inr (e2, p2, h2)"
    and rest: "(let (r, p3) = parser_next p2;
              (lp, h3) = new_node h2 LeftParenNode;
              (rp, h4) = new_node h3 RightParenNode
          in case concat_expr h4 \<lparr>start = Some lp, fin = Some lp\<rparr> e2 of
               Inl f \<Rightarrow> Inl f
             | Inr (e1, h5) \<Rightarrow>
                 (case concatNode h5 e1 (Some rp) of
                    Inl f \<Rightarrow> Inl f
                  | Inr (e2, h6) \<Rightarrow>
                      if r \<noteq> RPAREN then Inl (Err (UnterminatedSubexp (pos p)))
                      else Inr (e2, p3, h6))) = Inr (e', p', h')"
    by (auto simp: parseSubexp.simps split: sum.splits)
  have cw: "clause_wf n" using parser_wf by blast
  have e0: "expr_wf h no_expr" by (rule expr_wf_empty)
  have s1: "wf_heap h2 \<and> expr_wf h2 e2 \<and> length h \<le> length h2"
    using cw w e0 r1 unfolding clause_wf_def by blast
  have l0: "linked_except h (X \<union> ends no_expr)" using l by simp
  have l2: "linked_except h2 (X \<union> ends e2)"
    using c w e0 l0 r1 unfolding clause_ln_def by blast
  obtain r p3 where nx2: "parser_next p2 = (r, p3)" by (cases "parser_next p2")
  obtain lp h3 where n3: "new_node h2 LeftParenNode = (lp, h3)" by (cases "new_node h2 LeftParenNode")
  obtain rp h4 where n4: "new_node h3 RightParenNode = (rp, h4)" by (cases "new_node h3 RightParenNode")
  have w2: "wf_heap h2" using s1 by simp
  note m3 = new_node_wf[OF w2 n3]
  note m4 = new_node_wf[OF m3(1) n4]
  have l3: "linked_except h3 (X \<union> ends e2)" by (rule linked_except_new(2)[OF n3 l2]) simp
  have l4: "linked_except h4 (X \<union> ends e2)" by (rule linked_except_new(2)[OF n4 l3]) simp
  from rest nx2 n3 n4 obtain e1 h5 where
    r2: "concat_expr h4 \<lparr>start = Some lp, fin = Some lp\<rparr> e2 = Inr (e1, h5)"
    and r3: "concatNode h5 e1 (Some rp) = Inr (e', h')"
    by (auto split: sum.splits if_splits)
  have lpw: "expr_wf h4 \<lparr>start = Some lp, fin = Some lp\<rparr>"
    using m3 m4 by (simp add: expr_wf_def in_arena_def)
  have e4: "expr_wf h4 e2" using s1 m3 m4 by (auto intro: expr_wf_mono)
  have l4': "linked_except h4 (X \<union> ends \<lparr>start = Some lp, fin = Some lp\<rparr> \<union> ends e2)"
    by (rule linked_except_mono[OF l4]) auto
  note c5 = concat_expr_wf[OF m4(1) lpw e4 r2]
  have l5: "linked_except h5 (X \<union> ends e1)" by (rule concat_expr_linked(1)[OF lpw e4 r2 l4'])
  have rp5: "rp < length h5" using m4 c5(3) by simp
  have l5': "linked_except h5 (X \<union> ends e1 \<union> {rp})"
    by (rule linked_except_mono[OF l5]) auto
  note d6 = concatNode_linked[OF c5(2) rp5 r3 l5']
  have "ends e' = {rp}" using d6(2) by (simp add: ends_def)
  with d6(1) show "linked_except h' (X \<union> ends e')" by simp
qed

lemma parser_ln: "clause_ln n \<and> pipe_ln n \<and> term_ln n \<and> subexp_ln n"
proof (induction n)
  case 0
  show ?case
    by (simp add: clause_ln_def pipe_ln_def term_ln_def subexp_ln_def
        parseClause.simps parsePipe.simps parseTerm.simps parseSubexp.simps)
next
  case (Suc n)
  then show ?case
    using clause_ln_step pipe_ln_step term_ln_step subexp_ln_step by blast
qed


theorem compiled_links:
  assumes "Compile p = Inr re" "a < length (nodes re)" "isMatchNode (kind (nodes re ! a))"
  shows "\<exists>b. nxt (nodes re ! a) = Some b \<and> b < length (nodes re)"
proof -
  let ?p0 = "\<lparr>inp = p, pos = 0, width = 0\<rparr>"
  from assms(1) obtain e p1 h where pc: "parseClause (fuel_of p) ?p0 [] no_expr = Inr (e, p1, h)"
    by (auto simp: Compile_def parse_def split: sum.splits)
  obtain t h1 where nn: "new_node h TerminalNode = (t, h1)" by (cases "new_node h TerminalNode")
  from assms(1) pc nn obtain e' where cn: "concatNode h1 e (Some t) = Inr (e', nodes re)"
    by (auto simp: Compile_def parse_def Let_def split: sum.splits if_splits prod.splits)
  have e0: "expr_wf [] no_expr" by (rule expr_wf_empty)
  have cw: "clause_wf (fuel_of p)" using parser_wf by blast
  have s1: "wf_heap h \<and> expr_wf h e"
    using cw wf_heap_Nil e0 pc unfolding clause_wf_def by blast
  have l0: "linked_except [] ({} \<union> ends no_expr)" by (simp add: linked_except_def)
  have cl: "clause_ln (fuel_of p)" using parser_ln by blast
  have l1: "linked_except h ({} \<union> ends e)"
    using cl wf_heap_Nil e0 l0 pc unfolding clause_ln_def by blast
  have w: "wf_heap h" using s1 by simp
  note m = new_node_wf[OF w nn]
  have l2: "linked_except h1 (ends e)" using linked_except_new(2)[OF nn l1] by simp
  have e1: "expr_wf h1 e" using s1 m by (auto intro: expr_wf_mono)
  have t1: "t < length h1" using m by simp
  have l2': "linked_except h1 ({} \<union> ends e \<union> {t})"
    by (rule linked_except_mono[OF l2]) auto
  from concatNode_linked(1)[OF e1 t1 cn l2'] have l3: "linked_except (nodes re) {t}" by simp
  have "kind (nodes re ! t) = kind (h1 ! t)"
    using cn t1 unfolding concatNode_def by (rule concat_expr_kind)
  also have "\<dots> = TerminalNode" using nn by (auto simp: new_node_def)
  finally have "a \<noteq> t" using assms(3) by auto
  with l3 assms(2,3) show ?thesis by (simp add: linked_except_def linked_def)
qed

text \<open>
  So \<^verbatim>\<open>MatchString\<close> never panics on a compiled pattern, in whatever order it ranges over
  its sets: each call of \<^verbatim>\<open>add\<close> it makes is on a node of the arena and a set made by
  \<^verbatim>\<open>add\<close> from the empty set.
\<close>

lemma step_nodes_total:
  assumes c: "Compile p = Inr re" and b: "built (nodes re) nx"
  shows "\<exists>nx'. step_nodes (nodes re) r ns nx = Inr nx' \<and> built (nodes re) nx'"
  using b
proof (induction ns arbitrary: nx)
  case Nil
  then show ?case by simp
next
  case (Cons n ns)
  let ?h = "nodes re"
  have w: "wf_heap ?h" by (rule compiled_arena(1)[OF c])
  show ?case
  proof (cases "n < length ?h \<and> isMatchNode (kind (?h ! n)) \<and> matches (kind (?h ! n)) r")
    case True
    with compiled_links[OF c] obtain m where m: "nxt (?h ! n) = Some m" "m < length ?h"
      by blast
    have cl: "eps_closed ?h nx" using built_closed[OF w Cons.prems] by simp
    have a: "add ?h nx (nxt (?h ! n)) = Inr (nx \<union> reach ?h m)"
      using add_closed_set(1)[OF w m(2) cl] m(1) by simp
    have "built ?h (nx \<union> reach ?h m)" by (rule built_add[OF Cons.prems a])
    from Cons.IH[OF this] True a show ?thesis by simp
  next
    case False
    then have "step_nodes ?h r (n # ns) nx = step_nodes ?h r ns nx" by auto
    with Cons.IH[OF Cons.prems] show ?thesis by simp
  qed
qed

lemma match_loop_total:
  assumes c: "Compile p = Inr re" and b: "built (nodes re) s"
  shows "\<exists>v. match_loop ord (nodes re) t s rs = Inr v"
  using b
proof (induction rs arbitrary: s)
  case Nil
  show ?case by simp
next
  case (Cons r rs)
  from step_nodes_total[OF c built_empty, of r "ord s"] obtain nx where
    st: "step_nodes (nodes re) r (ord s) {} = Inr nx" and bn: "built (nodes re) nx"
    by blast
  from Cons.IH[OF bn] st show ?case by auto
qed

theorem MatchString_total:
  assumes "Compile p = Inr re"
  shows "\<exists>v. MatchString ord re s = Inr v"
proof -
  let ?h = "nodes re"
  have w: "wf_heap ?h" by (rule compiled_arena(1)[OF assms])
  from compiled_arena(2)[OF assms] obtain a where a: "rstart re = Some a" "a < length ?h"
    by blast
  have "eps_closed ?h {}" by (simp add: eps_closed_def)
  from add_closed_set(1)[OF w a(2) this] a(1)
  have st: "add ?h {} (rstart re) = Inr ({} \<union> reach ?h a)" by simp
  have "built ?h ({} \<union> reach ?h a)" by (rule built_add[OF built_empty st])
  from match_loop_total[OF assms this] st show ?thesis
    by (simp add: MatchString_def)
qed

section \<open>Code points of several bytes\<close>

lemma runes_append_valid:
  "RuneError \<notin> set (runes s) \<Longrightarrow> runes (s @ t) = runes s @ runes t"
proof (induction s rule: runes.induct)
  case (1 s)
  show ?case
  proof (cases "s = []")
    case True
    then show ?thesis by (simp add: runes_Nil)
  next
    case False
    let ?r = "fst (DecodeRuneInString s)" and ?w = "snd (DecodeRuneInString s)"
    have rs: "runes s = ?r # runes (drop ?w s)"
      using False by (subst runes.simps) simp
    with "1.prems" have r: "?r \<noteq> RuneError" and rest: "RuneError \<notin> set (runes (drop ?w s))"
      by auto
    have st: "DecodeRuneInString (s @ t) = DecodeRuneInString s"
      using r by (intro decode_stable) simp
    have le: "?w \<le> length s" by (rule decode_width_le)
    have "runes (s @ t) = ?r # runes (drop ?w (s @ t))"
      using False st by (subst runes.simps) simp
    also have "drop ?w (s @ t) = drop ?w s @ t" using le by simp
    also have "runes (drop ?w s @ t) = runes (drop ?w s) @ runes t"
      using "1.IH"[OF False rest] .
    finally show ?thesis using rs by simp
  qed
qed

lemma runes_code_point:
  assumes "DecodeRuneInString cp = (r, length cp)" "1 < length cp"
  shows "runes (cp @ t) = r # runes t"
proof -
  have "DecodeRuneInString (cp @ t) = (r, length cp)"
    using decode_stable[of cp t] assms by simp
  moreover have "cp @ t \<noteq> []" using assms by auto
  ultimately show ?thesis by (subst runes.simps) simp
qed

lemma runes_repeat:
  assumes "DecodeRuneInString cp = (r, length cp)" "1 < length cp"
  shows "runes (concat (replicate n cp)) = replicate n r"
  by (induction n) (simp_all add: runes_Nil runes_code_point[OF assms])

lemma compile_code_point_plus:
  assumes d: "DecodeRuneInString cp = (r, length cp)" and w: "1 < length cp"
    and r: "r \<noteq> RuneError"
  shows "Compile (cp @ ''+'') =
    Inr \<lparr>rstart = Some 0, rterm = Some 2, pattern = cp @ ''+'',
         nodes = [\<lparr>kind = LiteralNode r, epsilons = [], nxt = Some 1\<rparr>,
                  \<lparr>kind = PlusNode, epsilons = [Some 0, Some 2], nxt = None\<rparr>,
                  \<lparr>kind = TerminalNode, epsilons = [], nxt = None\<rparr>]\<rparr>"
proof -
  let ?s = "cp @ ''+''"
  let ?L = "length cp"
  have ge: "0x80 \<le> r" using decode_multibyte_ge[of cp] d w by simp
  have d0: "DecodeRuneInString ?s = (r, ?L)"
    using decode_stable[of cp "''+''"] d w by simp
  have pk0: "peek \<lparr>inp = ?s, pos = 0, width = 0\<rparr> = (r, \<lparr>inp = ?s, pos = 0, width = 0\<rparr>)"
    by (simp add: peek_def parser_next_def backup_def d0)
  have nx0: "parser_next \<lparr>inp = ?s, pos = 0, width = 0\<rparr> = (r, \<lparr>inp = ?s, pos = ?L, width = ?L\<rparr>)"
    by (simp add: parser_next_def d0)
  have pk1: "peek \<lparr>inp = ?s, pos = ?L, width = ?L\<rparr> = (43, \<lparr>inp = ?s, pos = ?L, width = 0\<rparr>)"
    by (simp add: peek_def parser_next_def backup_def)
  have nx1: "parser_next \<lparr>inp = ?s, pos = ?L, width = 0\<rparr>
      = (43, \<lparr>inp = ?s, pos = Suc ?L, width = Suc 0\<rparr>)"
    by (simp add: parser_next_def)
  have pk2: "peek \<lparr>inp = ?s, pos = Suc ?L, width = Suc 0\<rparr>
      = (RuneError, \<lparr>inp = ?s, pos = Suc ?L, width = 0\<rparr>)"
    by (simp add: peek_def parser_next_def backup_def)
  let ?h = "[\<lparr>kind = LiteralNode r, epsilons = [], nxt = Some 1\<rparr>,
             \<lparr>kind = PlusNode, epsilons = [Some 0], nxt = None\<rparr>]"
  have tm: "parseTerm (Suc n) \<lparr>inp = ?s, pos = 0, width = 0\<rparr> []
      = Inr (\<lparr>start = Some 0, fin = Some 1\<rparr>, \<lparr>inp = ?s, pos = Suc ?L, width = Suc 0\<rparr>, ?h)" for n
    using ge
    by (simp add: parseTerm.simps pk0 nx0 pk1 nx1 parseLiteral_def parseMeta_def new_node_def
        concatNode_def concat_expr_def isEmpty_def no_expr_def)
  have cl1: "parseClause (Suc n) \<lparr>inp = ?s, pos = Suc ?L, width = Suc 0\<rparr> ?h e
      = Inr (e, \<lparr>inp = ?s, pos = Suc ?L, width = 0\<rparr>, ?h)" for n e
    by (subst parseClause.simps) (simp add: pk2)
  have cl0: "parseClause (Suc (Suc n)) \<lparr>inp = ?s, pos = 0, width = 0\<rparr> [] no_expr
      = Inr (\<lparr>start = Some 0, fin = Some 1\<rparr>, \<lparr>inp = ?s, pos = Suc ?L, width = 0\<rparr>, ?h)" for n
    using ge r cl1[of n "\<lparr>start = Some 0, fin = Some 1\<rparr>"]
    by (subst parseClause.simps)
       (simp add: pk0 tm concat_expr_def isEmpty_def)
  have f: "fuel_of ?s = Suc (Suc (3 * ?L + 2))" by (simp add: fuel_of_def)
  show ?thesis
    unfolding Compile_def parse_def f cl0
    by (simp add: new_node_def concatNode_def concat_expr_def isEmpty_def no_expr_def)
qed

text \<open>
  Claim C8, as amended. Let \<open>cp\<close> be the encoding of one code point \<open>r\<close> of more than one
  byte (the decoder reads \<open>r\<close> from \<open>cp\<close> and consumes all of it), other than U+FFFD.
  Then the pattern \<open>cp\<close> followed by \<^verbatim>\<open>+\<close> compiles, the compiled pattern rejects the empty
  input and accepts \<open>n\<close> times \<open>cp\<close> for every \<open>n \<ge> 1\<close>.
\<close>

theorem multibyte_plus:
  assumes ord: "enumerates ord" and d: "DecodeRuneInString cp = (r, length cp)"
    and w: "1 < length cp" and r: "r \<noteq> RuneError"
  shows "\<exists>re. Compile (cp @ ''+'') = Inr re \<and> MatchString ord re [] = Inr False
    \<and> (\<forall>n\<ge>1. MatchString ord re (concat (replicate n cp)) = Inr True)"
proof -
  let ?h = "[\<lparr>kind = LiteralNode r, epsilons = [], nxt = Some 1\<rparr>,
             \<lparr>kind = PlusNode, epsilons = [Some 0, Some 2], nxt = None\<rparr>,
             \<lparr>kind = TerminalNode, epsilons = [], nxt = None\<rparr>]"
  let ?re = "\<lparr>rstart = Some 0, rterm = Some 2, pattern = cp @ ''+'', nodes = ?h\<rparr>"
  have cl: "add ?h {} (nxt (?h ! 0)) = Inr {0, 1, 2}"
    by (auto simp: add_def)
  have c0: "add ?h {} (Some 0) = Inr {0}"
    by (simp add: add_def)
  have lp: "match_loop ord ?h (Some 2) {0, 1, 2} (replicate n r) = Inr True" for n
    by (rule loop_all_live[OF ord _ _ _ cl]) (simp_all add: active_def)
  have st: "step_nodes ?h r (ord {0}) {} = Inr {0, 1, 2}"
    using step_ord_one[OF ord, of "{0}" 0 ?h r "{}"] cl by (auto simp: active_def)
  have rej: "MatchString ord ?re [] = Inr False"
    using c0 by (simp add: MatchString_def runes_Nil)
  have acc: "MatchString ord ?re (concat (replicate n cp)) = Inr True" if "1 \<le> n" for n
  proof -
    from that obtain m where "n = Suc m" by (cases n) auto
    then have "runes (concat (replicate n cp)) = r # replicate m r"
      using runes_repeat[OF d w, of n] by simp
    then show ?thesis
      using c0 st lp[of m] by (simp add: MatchString_def)
  qed
  show ?thesis
    using rej acc by (simp add: compile_code_point_plus[OF d w r])
qed

theorem multibyte_plus_witness:
  "enumerates sorted_list_of_set
   \<and> DecodeRuneInString [CHR 0xF0, CHR 0x9F, CHR 0x98, CHR 0x83]
       = (128515, length [CHR 0xF0, CHR 0x9F, CHR 0x98, CHR 0x83])
   \<and> 1 < length [CHR 0xF0, CHR 0x9F, CHR 0x98, CHR 0x83]
   \<and> (128515 :: nat) \<noteq> RuneError
   \<and> (\<exists>re. Compile ([CHR 0xF0, CHR 0x9F, CHR 0x98, CHR 0x83] @ ''+'') = Inr re
        \<and> MatchString sorted_list_of_set re [] = Inr False
        \<and> MatchString sorted_list_of_set re
             (concat (replicate 2 [CHR 0xF0, CHR 0x9F, CHR 0x98, CHR 0x83])) = Inr True)"
proof -
  let ?cp = "[CHR 0xF0, CHR 0x9F, CHR 0x98, CHR 0x83]"
  have e: "enumerates sorted_list_of_set" by (simp add: enumerates_def)
  have d: "DecodeRuneInString ?cp = (128515, length ?cp)" by simp
  have w: "1 < length ?cp" by simp
  have r: "(128515 :: nat) \<noteq> RuneError" by simp
  from multibyte_plus[OF e d w r] obtain re where
    "Compile (?cp @ ''+'') = Inr re" "MatchString sorted_list_of_set re [] = Inr False"
    "\<forall>n\<ge>1. MatchString sorted_list_of_set re (concat (replicate n ?cp)) = Inr True"
    by blast
  moreover from this have
    "MatchString sorted_list_of_set re (concat (replicate 2 ?cp)) = Inr True"
    by (metis one_le_numeral)
  ultimately show ?thesis using e d w r by blast
qed

text \<open>
  The claim as stated fails for the code point U+FFFD, whose encoding has three bytes: it
  is the end-of-input sentinel of the scanner, and the pattern does not compile.
\<close>

theorem replacement_character_plus_counterexample:
  "DecodeRuneInString [CHR 0xEF, CHR 0xBF, CHR 0xBD] = (0xFFFD, 3)
   \<and> Compile ([CHR 0xEF, CHR 0xBF, CHR 0xBD] @ ''+'') = Inl (Err (IllegalAt 0xFFFD 0))"
  by (simp add: run_parser)

section \<open>Patterns of literals\<close>

lemma length_lit_nodes [simp]: "length (lit_nodes i rs) = length rs"
  by (induction rs arbitrary: i) simp_all

lemma lit_nodes_snoc:
  "lit_nodes i (ra @ [r]) =
    lit_nodes i ra @ [\<lparr>kind = LiteralNode r, epsilons = [], nxt = Some (Suc (i + length ra))\<rparr>]"
  by (induction ra arbitrary: i) simp_all

lemma lit_nodes_nth:
  "j < length rs \<Longrightarrow>
    lit_nodes i rs ! j = \<lparr>kind = LiteralNode (rs ! j), epsilons = [], nxt = Some (Suc (i + j))\<rparr>"
proof (induction rs arbitrary: i j)
  case Nil
  then show ?case by simp
next
  case (Cons r rs)
  then show ?case by (cases j) simp_all
qed

text \<open>Appending a new node to the pending chain.\<close>

lemma concat_pending:
  assumes "(h, e) = pending rs"
  shows "concat_expr (h @ [\<lparr>kind = k, epsilons = [], nxt = None\<rparr>]) e
            \<lparr>start = Some (length h), fin = Some (length h)\<rparr>
    = Inr (\<lparr>start = Some 0, fin = Some (length rs)\<rparr>,
           lit_nodes 0 rs @ [\<lparr>kind = k, epsilons = [], nxt = None\<rparr>])"
proof (cases "rs = []")
  case True
  with assms show ?thesis
    by (simp add: pending_def concat_expr_def isEmpty_def)
next
  case False
  then obtain ra r where rs: "rs = ra @ [r]"
    by (metis append_butlast_last_id)
  with assms have h: "h = lit_nodes 0 ra @ [\<lparr>kind = LiteralNode r, epsilons = [], nxt = None\<rparr>]"
    and e: "e = \<lparr>start = Some 0, fin = Some (length ra)\<rparr>"
    by (simp_all add: pending_def)
  show ?thesis
    unfolding h e rs
    by (simp add: concat_expr_def isEmpty_def no_expr_def nth_append lit_nodes_snoc list_update_append)
qed

lemma pending_snoc:
  "pending (rs @ [r]) =
    (lit_nodes 0 rs @ [\<lparr>kind = LiteralNode r, epsilons = [], nxt = None\<rparr>],
     \<lparr>start = Some 0, fin = Some (length rs)\<rparr>)"
  by (simp add: pending_def)

lemma rune_not_meta:
  assumes "\<forall>b\<in>set t. \<not> meta b"
  shows "fst (DecodeRuneInString t) \<notin> {0x28, 0x29, 0x2A, 0x2B, 0x2E, 0x3F, 0x5C, 0x7C}"
proof (cases t)
  case Nil
  then show ?thesis by simp
next
  case (Cons c u)
  show ?thesis
  proof (cases "1 < snd (DecodeRuneInString t)")
    case True
    from decode_multibyte_ge[OF this] show ?thesis by auto
  next
    case False
    then have "snd (DecodeRuneInString (c # u)) \<le> 1" using Cons by simp
    from decode_single[OF this] assms Cons show ?thesis
      by (auto simp: meta_def simp del: DecodeRuneInString.simps)
  qed
qed


lemma peek_decode:
  "DecodeRuneInString (drop (pos p) (inp p)) = (r, w) \<Longrightarrow> peek p = (r, p\<lparr>width := 0\<rparr>)"
  by (simp add: peek_def parser_next_def backup_def)

lemma next_decode:
  "DecodeRuneInString (drop (pos p) (inp p)) = (r, w)
    \<Longrightarrow> parser_next p = (r, p\<lparr>pos := pos p + w, width := w\<rparr>)"
  by (simp add: parser_next_def)

lemma clause_literals:
  assumes "parseClause n p h e = Inr (e', p', h')"
    and "pos p' = length (inp p)"
    and "\<forall>b\<in>set (drop (pos p) (inp p)). \<not> meta b"
    and "(h, e) = pending dn"
  shows "(h', e') = pending (dn @ runes (drop (pos p) (inp p)))
    \<and> RuneError \<notin> set (runes (drop (pos p) (inp p)))"
  using assms
proof (induction n arbitrary: p h e dn)
  case 0
  then show ?case by (simp add: parseClause.simps)
next
  case (Suc n)
  let ?t = "drop (pos p) (inp p)"
  obtain r w where d: "DecodeRuneInString ?t = (r, w)"
    by (cases "DecodeRuneInString ?t")
  have pk: "peek p = (r, p\<lparr>width := 0\<rparr>)" by (rule peek_decode[OF d])
  have nm: "r \<notin> {0x28, 0x29, 0x2A, 0x2B, 0x2E, 0x3F, 0x5C, 0x7C}"
    using rune_not_meta[OF Suc.prems(3)] d by simp
  show ?case
  proof (cases "r = RuneError")
    case True
    with Suc.prems(1) pk have "e' = e" "h' = h" "p' = p\<lparr>width := 0\<rparr>"
      by (simp_all add: parseClause.simps)
    moreover from this Suc.prems(2) have "?t = []" by simp
    ultimately show ?thesis
      using Suc.prems(4) by (simp add: runes_Nil)
  next
    case False
    have tne: "?t \<noteq> []" using d False by auto
    let ?p1 = "p\<lparr>width := 0\<rparr>"
    let ?p2 = "p\<lparr>pos := pos p + w, width := w\<rparr>"
    let ?p3 = "p\<lparr>pos := pos p + w, width := 0\<rparr>"
    have d1: "DecodeRuneInString (drop (pos ?p1) (inp ?p1)) = (r, w)" using d by simp
    have pk1: "peek ?p1 = (r, ?p1)" using peek_decode[OF d1] by simp
    have nx1: "parser_next ?p1 = (r, ?p2)" using next_decode[OF d1] by simp
    let ?t2 = "drop (pos ?p2) (inp ?p2)"
    have t2: "?t2 = drop w ?t" by (simp add: add.commute)
    obtain r2 w2 where d2: "DecodeRuneInString ?t2 = (r2, w2)"
      by (cases "DecodeRuneInString ?t2")
    have pk2: "peek ?p2 = (r2, ?p3)" using peek_decode[OF d2] by simp
    have nm2t: "\<forall>b\<in>set ?t2. \<not> meta b"
      using Suc.prems(3) unfolding t2 by (meson in_set_dropD)
    have nm2: "r2 \<notin> {0x28, 0x29, 0x2A, 0x2B, 0x2E, 0x3F, 0x5C, 0x7C}"
      using rune_not_meta[OF nm2t] d2 by simp
    from Suc.prems(1) pk False nm have run:
      "(case parseTerm n ?p1 h of
          Inl f \<Rightarrow> Inl f
        | Inr (nx, p2, h2) \<Rightarrow>
            (case concat_expr h2 e nx of
               Inl f \<Rightarrow> Inl f
             | Inr (e'', h3) \<Rightarrow> parseClause n p2 h3 e'')) = Inr (e', p', h')"
      by (simp add: parseClause.simps)
    then obtain m where n: "n = Suc m"
      by (cases n) (auto simp: parseTerm.simps)
    let ?h2 = "h @ [\<lparr>kind = LiteralNode r, epsilons = [], nxt = None\<rparr>]"
    have tm: "parseTerm n ?p1 h = Inr (\<lparr>start = Some (length h), fin = Some (length h)\<rparr>, ?p3, ?h2)"
      unfolding n using nm nm2
      by (simp add: parseTerm.simps pk1 nx1 pk2 parseLiteral_def new_node_def)
    let ?e3 = "\<lparr>start = Some 0, fin = Some (length dn)\<rparr>"
    let ?h3 = "lit_nodes 0 dn @ [\<lparr>kind = LiteralNode r, epsilons = [], nxt = None\<rparr>]"
    have cc: "concat_expr ?h2 e \<lparr>start = Some (length h), fin = Some (length h)\<rparr> = Inr (?e3, ?h3)"
      by (rule concat_pending[OF Suc.prems(4)])
    from run tm cc have rest: "parseClause n ?p3 ?h3 ?e3 = Inr (e', p', h')"
      by simp
    have pend: "(?h3, ?e3) = pending (dn @ [r])" by (simp add: pending_snoc)
    have len: "pos p' = length (inp ?p3)" using Suc.prems(2) by simp
    have nm3: "\<forall>b\<in>set (drop (pos ?p3) (inp ?p3)). \<not> meta b"
      using nm2t by simp
    from Suc.IH[OF rest len nm3 pend]
    have ih: "(h', e') = pending ((dn @ [r]) @ runes (drop (pos ?p3) (inp ?p3)))"
      and ok: "RuneError \<notin> set (runes (drop (pos ?p3) (inp ?p3)))"
      by simp_all
    have t3: "drop (pos ?p3) (inp ?p3) = drop w ?t" by (simp add: add.commute)
    have rs: "runes ?t = r # runes (drop w ?t)"
      using tne d by (subst runes.simps) simp
    show ?thesis
      using ih ok False unfolding t3 rs by simp
  qed
qed


lemma compile_literals:
  assumes c: "Compile p = Inr re" and nm: "\<forall>b\<in>set p. \<not> meta b"
  shows "re = \<lparr>rstart = Some 0, rterm = Some (length (runes p)), pattern = p,
               nodes = lit_nodes 0 (runes p) @ [\<lparr>kind = TerminalNode, epsilons = [], nxt = None\<rparr>]\<rparr>
    \<and> RuneError \<notin> set (runes p)"
proof -
  let ?p0 = "\<lparr>inp = p, pos = 0, width = 0\<rparr>"
  from c obtain e p1 h where pc: "parseClause (fuel_of p) ?p0 [] no_expr = Inr (e, p1, h)"
    by (auto simp: Compile_def parse_def split: sum.splits)
  from c pc have len: "pos p1 = length p"
    by (auto simp: Compile_def parse_def Let_def split: sum.splits if_splits prod.splits)
  have pend0: "([], no_expr) = pending []" by (simp add: pending_def)
  from clause_literals[OF pc _ _ pend0] len nm
  have he: "(h, e) = pending (runes p)" and ok: "RuneError \<notin> set (runes p)"
    by simp_all
  from concat_pending[OF he, of TerminalNode]
  have "concatNode (h @ [\<lparr>kind = TerminalNode, epsilons = [], nxt = None\<rparr>]) e (Some (length h))
    = Inr (\<lparr>start = Some 0, fin = Some (length (runes p))\<rparr>,
           lit_nodes 0 (runes p) @ [\<lparr>kind = TerminalNode, epsilons = [], nxt = None\<rparr>])"
    by (simp add: concatNode_def)
  with c pc len ok show ?thesis
    by (simp add: Compile_def parse_def new_node_def)
qed

lemma runes_length_le: "length (runes s) \<le> length s"
proof (induction s rule: runes.induct)
  case (1 s)
  show ?case
  proof (cases "s = []")
    case True
    then show ?thesis by (simp add: runes_Nil)
  next
    case False
    let ?w = "snd (DecodeRuneInString s)"
    have "0 < ?w" by (rule decode_width_pos[OF False])
    moreover have "?w \<le> length s" by (rule decode_width_le)
    moreover have "length (runes (drop ?w s)) \<le> length (drop ?w s)"
      by (rule "1.IH"[OF False])
    moreover have "runes s = fst (DecodeRuneInString s) # runes (drop ?w s)"
      using False by (subst runes.simps) simp
    ultimately show ?thesis by simp
  qed
qed

lemma term_literal:
  assumes d: "DecodeRuneInString (drop (pos p) (inp p)) = (r, w)"
    and r: "r \<noteq> RuneError"
    and nm: "\<forall>b\<in>set (drop (pos p) (inp p)). \<not> meta b"
  shows "parseTerm (Suc m) (p\<lparr>width := 0\<rparr>) h =
    Inr (\<lparr>start = Some (length h), fin = Some (length h)\<rparr>, p\<lparr>pos := pos p + w, width := 0\<rparr>,
         h @ [\<lparr>kind = LiteralNode r, epsilons = [], nxt = None\<rparr>])"
proof -
  let ?t = "drop (pos p) (inp p)"
  let ?p1 = "p\<lparr>width := 0\<rparr>"
  let ?p2 = "p\<lparr>pos := pos p + w, width := w\<rparr>"
  let ?p3 = "p\<lparr>pos := pos p + w, width := 0\<rparr>"
  have nmr: "r \<notin> {0x28, 0x29, 0x2A, 0x2B, 0x2E, 0x3F, 0x5C, 0x7C}"
    using rune_not_meta[OF nm] d by simp
  have d1: "DecodeRuneInString (drop (pos ?p1) (inp ?p1)) = (r, w)" using d by simp
  have pk1: "peek ?p1 = (r, ?p1)" using peek_decode[OF d1] by simp
  have nx1: "parser_next ?p1 = (r, ?p2)" using next_decode[OF d1] by simp
  let ?t2 = "drop (pos ?p2) (inp ?p2)"
  have t2: "?t2 = drop w ?t" by (simp add: add.commute)
  obtain r2 w2 where d2: "DecodeRuneInString ?t2 = (r2, w2)"
    by (cases "DecodeRuneInString ?t2")
  have pk2: "peek ?p2 = (r2, ?p3)" using peek_decode[OF d2] by simp
  have nm2t: "\<forall>b\<in>set ?t2. \<not> meta b"
    using nm unfolding t2 by (meson in_set_dropD)
  have nm2: "r2 \<notin> {0x28, 0x29, 0x2A, 0x2B, 0x2E, 0x3F, 0x5C, 0x7C}"
    using rune_not_meta[OF nm2t] d2 by simp
  show ?thesis
    using nmr nm2
    by (simp add: parseTerm.simps pk1 nx1 pk2 parseLiteral_def new_node_def)
qed

lemma clause_literals_run:
  assumes "\<forall>b\<in>set (drop (pos p) (inp p)). \<not> meta b"
    and "RuneError \<notin> set (runes (drop (pos p) (inp p)))"
    and "(h, e) = pending dn"
    and "length (runes (drop (pos p) (inp p))) < n"
    and "pos p \<le> length (inp p)"
  shows "\<exists>h' e'. parseClause n p h e = Inr (e', p\<lparr>pos := length (inp p), width := 0\<rparr>, h')
    \<and> (h', e') = pending (dn @ runes (drop (pos p) (inp p)))"
  using assms
proof (induction n arbitrary: p h e dn)
  case 0
  then show ?case by simp
next
  case (Suc n)
  let ?t = "drop (pos p) (inp p)"
  obtain r w where d: "DecodeRuneInString ?t = (r, w)"
    by (cases "DecodeRuneInString ?t")
  have pk: "peek p = (r, p\<lparr>width := 0\<rparr>)" by (rule peek_decode[OF d])
  show ?case
  proof (cases "?t = []")
    case True
    then have r: "r = RuneError" and pe: "pos p = length (inp p)"
      using d Suc.prems(5) by auto
    have "p\<lparr>width := 0\<rparr> = p\<lparr>pos := length (inp p), width := 0\<rparr>"
      using pe by simp
    then have "parseClause (Suc n) p h e = Inr (e, p\<lparr>pos := length (inp p), width := 0\<rparr>, h)"
      using pk r by (simp add: parseClause.simps)
    then show ?thesis using Suc.prems(3) True by (simp add: runes_Nil)
  next
    case False
    have rs: "runes ?t = r # runes (drop w ?t)"
      using False d by (subst runes.simps) simp
    with Suc.prems(2) have r: "r \<noteq> RuneError"
      and ok: "RuneError \<notin> set (runes (drop w ?t))" by auto
    have nmr: "r \<notin> {0x28, 0x29, 0x2A, 0x2B, 0x2E, 0x3F, 0x5C, 0x7C}"
      using rune_not_meta[OF Suc.prems(1)] d by simp
    from Suc.prems(4) rs obtain m where n: "n = Suc m" by (cases n) auto
    let ?p3 = "p\<lparr>pos := pos p + w, width := 0\<rparr>"
    let ?h2 = "h @ [\<lparr>kind = LiteralNode r, epsilons = [], nxt = None\<rparr>]"
    have tm: "parseTerm n (p\<lparr>width := 0\<rparr>) h
        = Inr (\<lparr>start = Some (length h), fin = Some (length h)\<rparr>, ?p3, ?h2)"
      unfolding n by (rule term_literal[OF d r Suc.prems(1)])
    let ?e3 = "\<lparr>start = Some 0, fin = Some (length dn)\<rparr>"
    let ?h3 = "lit_nodes 0 dn @ [\<lparr>kind = LiteralNode r, epsilons = [], nxt = None\<rparr>]"
    have cc: "concat_expr ?h2 e \<lparr>start = Some (length h), fin = Some (length h)\<rparr> = Inr (?e3, ?h3)"
      by (rule concat_pending[OF Suc.prems(3)])
    have step: "parseClause (Suc n) p h e = parseClause n ?p3 ?h3 ?e3"
      using pk r nmr by (simp add: parseClause.simps tm cc)
    have t3: "drop (pos ?p3) (inp ?p3) = drop w ?t" by (simp add: add.commute)
    have wle: "w \<le> length ?t" using decode_width_le[of ?t] d by simp
    have pend: "(?h3, ?e3) = pending (dn @ [r])" by (simp add: pending_snoc)
    have nm3: "\<forall>b\<in>set (drop (pos ?p3) (inp ?p3)). \<not> meta b"
      unfolding t3 using Suc.prems(1) by (meson in_set_dropD)
    have ok3: "RuneError \<notin> set (runes (drop (pos ?p3) (inp ?p3)))"
      unfolding t3 by (rule ok)
    have len3: "length (runes (drop (pos ?p3) (inp ?p3))) < n"
      unfolding t3 using Suc.prems(4) rs by simp
    have le3: "pos ?p3 \<le> length (inp ?p3)"
      using wle Suc.prems(5) by simp
    from Suc.IH[OF nm3 ok3 pend len3 le3] obtain h' e' where
      run: "parseClause n ?p3 ?h3 ?e3 = Inr (e', ?p3\<lparr>pos := length (inp ?p3), width := 0\<rparr>, h')"
      and res: "(h', e') = pending ((dn @ [r]) @ runes (drop (pos ?p3) (inp ?p3)))"
      by blast
    have "parseClause (Suc n) p h e = Inr (e', p\<lparr>pos := length (inp p), width := 0\<rparr>, h')"
      using step run by simp
    moreover have "(h', e') = pending (dn @ runes ?t)"
      using res unfolding t3 rs by simp
    ultimately show ?thesis by blast
  qed
qed

text \<open>
  Every pattern with no metacharacter that is valid UTF-8 and does not hold U+FFFD
  compiles, to the chain of the literals of its code points.
\<close>

lemma literals_compile:
  assumes nm: "\<forall>b\<in>set p. \<not> meta b" and ok: "RuneError \<notin> set (runes p)"
  shows "Compile p =
    Inr \<lparr>rstart = Some 0, rterm = Some (length (runes p)), pattern = p,
         nodes = lit_nodes 0 (runes p) @ [\<lparr>kind = TerminalNode, epsilons = [], nxt = None\<rparr>]\<rparr>"
proof -
  let ?p0 = "\<lparr>inp = p, pos = 0, width = 0\<rparr>"
  have pend0: "([], no_expr) = pending []" by (simp add: pending_def)
  have fuel: "length (runes (drop (pos ?p0) (inp ?p0))) < fuel_of p"
    using runes_length_le[of p] by (simp add: fuel_of_def)
  have nm0: "\<forall>b\<in>set (drop (pos ?p0) (inp ?p0)). \<not> meta b" using nm by simp
  have ok0: "RuneError \<notin> set (runes (drop (pos ?p0) (inp ?p0)))" using ok by simp
  have le0: "pos ?p0 \<le> length (inp ?p0)" by simp
  from clause_literals_run[OF nm0 ok0 pend0 fuel le0]
  obtain h e where pc: "parseClause (fuel_of p) ?p0 [] no_expr
      = Inr (e, ?p0\<lparr>pos := length (inp ?p0), width := 0\<rparr>, h)"
    and he: "(h, e) = pending (runes p)"
    by auto
  from concat_pending[OF he, of TerminalNode]
  have "concatNode (h @ [\<lparr>kind = TerminalNode, epsilons = [], nxt = None\<rparr>]) e (Some (length h))
    = Inr (\<lparr>start = Some 0, fin = Some (length (runes p))\<rparr>,
           lit_nodes 0 (runes p) @ [\<lparr>kind = TerminalNode, epsilons = [], nxt = None\<rparr>])"
    by (simp add: concatNode_def)
  with pc show ?thesis
    by (simp add: Compile_def parse_def new_node_def)
qed

lemma chain_match:
  assumes ord: "enumerates ord"
  shows "j \<le> length rs \<Longrightarrow>
    match_loop ord (lit_nodes 0 rs @ [\<lparr>kind = TerminalNode, epsilons = [], nxt = None\<rparr>])
      (Some (length rs)) {j} (drop j rs @ ex) = Inr (ex = [])"
proof (induction "length rs - j" arbitrary: j)
  case 0
  let ?H = "lit_nodes 0 rs @ [\<lparr>kind = TerminalNode, epsilons = [], nxt = None\<rparr>]"
  from 0 have j: "j = length rs" by simp
  have tn: "?H ! length rs = \<lparr>kind = TerminalNode, epsilons = [], nxt = None\<rparr>"
    by (simp add: nth_append)
  show ?case
  proof (cases ex)
    case Nil
    then show ?thesis using j by simp
  next
    case (Cons x xs)
    have "step_nodes ?H x (ord {length rs}) {} = Inr {}"
      using step_ord_none[OF ord, of "{length rs}" ?H x "{}"] tn
      by (simp add: active_def)
    then show ?thesis using j Cons by simp
  qed
next
  case (Suc d)
  let ?H = "lit_nodes 0 rs @ [\<lparr>kind = TerminalNode, epsilons = [], nxt = None\<rparr>]"
  from Suc.hyps(2) have j: "j < length rs" by simp
  have nd: "?H ! j = \<lparr>kind = LiteralNode (rs ! j), epsilons = [], nxt = Some (Suc j)\<rparr>"
    using j by (simp add: nth_append lit_nodes_nth)
  have eps: "epsilons (?H ! Suc j) = []"
  proof (cases "Suc j < length rs")
    case True
    then show ?thesis by (simp add: nth_append lit_nodes_nth)
  next
    case False
    with j have "Suc j = length rs" by simp
    then show ?thesis by (simp add: nth_append)
  qed
  have ad: "add ?H {} (Some (Suc j)) = Inr {Suc j}"
    using j eps by (simp add: add_def)
  have dr: "drop j rs = rs ! j # drop (Suc j) rs"
    using j by (simp add: Cons_nth_drop_Suc)
  have "step_nodes ?H (rs ! j) (ord {j}) {} = add ?H {} (nxt (?H ! j))"
    using step_ord_one[OF ord, of "{j}" j ?H "rs ! j" "{}"] j nd
    by (simp add: active_def)
  then have st: "step_nodes ?H (rs ! j) (ord {j}) {} = Inr {Suc j}"
    using nd ad by simp
  have ih: "match_loop ord ?H (Some (length rs)) {Suc j} (drop (Suc j) rs @ ex) = Inr (ex = [])"
    using Suc.hyps(1)[of "Suc j"] Suc.hyps(2) j by simp
  show ?case
    unfolding dr using st ih by simp
qed

text \<open>
  Claim C1. For every pattern \<open>p\<close> with no metacharacter that compiles, the compiled
  pattern accepts the input \<open>p\<close> and rejects the input \<open>p\<close> followed by \<^verbatim>\<open>x\<close>.
\<close>

theorem literal_pattern:
  assumes ord: "enumerates ord" and nm: "\<forall>b\<in>set p. \<not> meta b" and c: "Compile p = Inr re"
  shows "MatchString ord re p = Inr True \<and> MatchString ord re (p @ ''x'') = Inr False"
proof -
  let ?rs = "runes p"
  let ?H = "lit_nodes 0 ?rs @ [\<lparr>kind = TerminalNode, epsilons = [], nxt = None\<rparr>]"
  from compile_literals[OF c nm] have re: "nodes re = ?H" "rstart re = Some 0"
    "rterm re = Some (length ?rs)" and ok: "RuneError \<notin> set ?rs"
    by simp_all
  have e0: "epsilons (?H ! 0) = []"
    by (cases ?rs) simp_all
  have c0: "add ?H {} (Some 0) = Inr {0}"
    using e0 by (simp add: add_def)
  have rx: "runes (p @ ''x'') = ?rs @ [120]"
    using runes_append_valid[OF ok, of "''x''"] by (simp add: runes_Cons runes_Nil)
  have m1: "match_loop ord ?H (Some (length ?rs)) {0} ?rs = Inr True"
    using chain_match[OF ord, of 0 ?rs "[]"] by simp
  have m2: "match_loop ord ?H (Some (length ?rs)) {0} (?rs @ [120]) = Inr False"
    using chain_match[OF ord, of 0 ?rs "[120]"] by simp
  show ?thesis
    using c0 m1 m2 by (simp add: MatchString_def re rx)
qed

theorem literal_pattern_witness:
  "enumerates sorted_list_of_set
   \<and> \<not> meta CHR ''a'' \<and> \<not> meta CHR ''b'' \<and> \<not> meta CHR ''c''
   \<and> (\<exists>re. Compile ''abc'' = Inr re
        \<and> MatchString sorted_list_of_set re ''abc'' = Inr True
        \<and> MatchString sorted_list_of_set re (''abc'' @ ''x'') = Inr False)"
proof -
  have e: "enumerates sorted_list_of_set" by (simp add: enumerates_def)
  have nm: "\<forall>b\<in>set ''abc''. \<not> meta b" by (simp add: meta_def)
  obtain re where c: "Compile ''abc'' = Inr re"
    by (simp add: run_parser)
  from literal_pattern[OF e nm c] c e nm show ?thesis by auto
qed

section \<open>Malformed patterns that return an error, whatever follows\<close>

text \<open>
  A pattern that begins with a quantifier, with \<^verbatim>\<open>|\<close>, with \<^verbatim>\<open>)\<close> or with an escape of a
  character that cannot be escaped returns an error for every rest of the pattern.
\<close>

lemma fuel_of_Cons: "fuel_of (c # s) = Suc (Suc (3 * length s + 2))"
  by (simp add: fuel_of_def)

lemma leading_quantifier:
  assumes "quantifier q"
  shows "Compile (q # rest) = Inl (Err (InvalidCharacter (of_char q) 0))"
proof -
  let ?p = "\<lparr>inp = q # rest, pos = 0, width = 0\<rparr>"
  have a: "(of_char q :: nat) < 0x80" using assms by (auto simp: quantifier_def)
  have pk: "peek ?p = (of_char q, ?p)"
    using peek_ascii[of ?p q rest] a by simp
  have "parseClause (fuel_of (q # rest)) ?p [] no_expr
      = Inl (Err (InvalidCharacter (fst (peek ?p)) (pos ?p)))"
    unfolding fuel_of_Cons
    by (rule clause_at_quantifier) (use assms pk in \<open>auto simp: quantifier_def\<close>)
  then show ?thesis by (simp add: Compile_def parse_def pk)
qed

lemma leading_pipe:
  "Compile (CHR ''|'' # rest)
    = Inl (Err (EmptyLeftOperand (fst (DecodeRuneInString rest)) 1))"
proof -
  let ?s = "CHR ''|'' # rest"
  let ?p = "\<lparr>inp = ?s, pos = 0, width = 0\<rparr>"
  have pk: "peek ?p = (PIPE, ?p)"
    using peek_ascii[of ?p "CHR ''|''" rest] by simp
  have nx: "parser_next ?p = (PIPE, \<lparr>inp = ?s, pos = Suc 0, width = Suc 0\<rparr>)"
    using next_ascii[of ?p "CHR ''|''" rest] by simp
  have pk2: "peek \<lparr>inp = ?s, pos = Suc 0, width = Suc 0\<rparr>
      = (fst (DecodeRuneInString rest), \<lparr>inp = ?s, pos = Suc 0, width = 0\<rparr>)"
    by (simp add: peek_def parser_next_def backup_def split: prod.splits)
  have "parsePipe (Suc n) ?p [] no_expr
      = Inl (Err (EmptyLeftOperand (fst (DecodeRuneInString rest)) 1))" for n
    by (simp add: parsePipe.simps nx pk2 isEmpty_def)
  then have "parseClause (Suc (Suc n)) ?p [] no_expr
      = Inl (Err (EmptyLeftOperand (fst (DecodeRuneInString rest)) 1))" for n
    by (subst parseClause.simps) (simp add: pk)
  then show ?thesis
    by (simp add: Compile_def parse_def fuel_of_Cons)
qed

lemma leading_right_paren:
  "Compile (CHR '')'' # rest) = Inl (Err (IllegalAt RPAREN 0))"
proof -
  let ?s = "CHR '')'' # rest"
  let ?p = "\<lparr>inp = ?s, pos = 0, width = 0\<rparr>"
  have pk: "peek ?p = (RPAREN, ?p)"
    using peek_ascii[of ?p "CHR '')''" rest] by simp
  have "parseClause (Suc n) ?p [] no_expr = Inr (no_expr, ?p, [])" for n
    by (subst parseClause.simps) (simp add: pk)
  then show ?thesis
    by (simp add: Compile_def parse_def fuel_of_Cons backup_def pk)
qed


lemma unknown_escape:
  assumes "fst (DecodeRuneInString rest) \<notin> {QMARK, STAR, PLUS, LPAREN, RPAREN, PIPE}"
  shows "Compile (CHR 0x5C # rest) = Inl (Err (UnknownEscape (fst (DecodeRuneInString rest))))"
proof -
  let ?s = "CHR 0x5C # rest"
  let ?p = "\<lparr>inp = ?s, pos = 0, width = 0\<rparr>"
  have pk: "peek ?p = (BACKSLASH, ?p)"
    using peek_ascii[of ?p "CHR 0x5C" rest] by simp
  have nx: "parser_next ?p = (BACKSLASH, \<lparr>inp = ?s, pos = Suc 0, width = Suc 0\<rparr>)"
    using next_ascii[of ?p "CHR 0x5C" rest] by simp
  have pk2: "peek \<lparr>inp = ?s, pos = Suc 0, width = Suc 0\<rparr>
      = (fst (DecodeRuneInString rest), \<lparr>inp = ?s, pos = Suc 0, width = 0\<rparr>)"
    by (simp add: peek_def parser_next_def backup_def split: prod.splits)
  have es: "parseEscape ?p [] = Inl (Err (UnknownEscape (fst (DecodeRuneInString rest))))"
    using assms by (simp add: parseEscape_def nx pk2)
  have "parseTerm (Suc n) ?p [] = Inl (Err (UnknownEscape (fst (DecodeRuneInString rest))))" for n
    by (simp add: parseTerm.simps pk es)
  then have "parseClause (Suc (Suc n)) ?p [] no_expr
      = Inl (Err (UnknownEscape (fst (DecodeRuneInString rest))))" for n
    by (subst parseClause.simps) (simp add: pk)
  then show ?thesis
    by (simp add: Compile_def parse_def fuel_of_Cons)
qed

end
